theory Spec2Isabelle
  imports Main "HOL-Library.Sublist" "HOL-Library.AList"
begin

section \<open>Python strings\<close>

text \<open>
  A Python \<open>str\<close> is a sequence of code points. The model covers text over the code
  points 0 to 255, one \<^typ>\<open>char\<close> each. Among these, \<open>str.isspace\<close> (which
  \<open>str.split()\<close>, \<open>str.strip()\<close> and the regular expression class \<open>\s\<close> all use)
  holds of the twelve characters below, and \<open>\d\<close> matches the ten ASCII digits only.
\<close>

definition is_space :: "char \<Rightarrow> bool" where
  "is_space c = (c \<in> {CHR 0x09, CHR 0x0A, CHR 0x0B, CHR 0x0C, CHR 0x0D, CHR 0x1C, CHR 0x1D,
                      CHR 0x1E, CHR 0x1F, CHR '' '', CHR 0x85, CHR 0xA0})"

definition is_digit :: "char \<Rightarrow> bool" where
  "is_digit c = (c \<in> set ''0123456789'')"

text \<open>\<open>s.split()\<close>: the maximal runs of non-whitespace characters, in order.\<close>

fun split_acc :: "string \<Rightarrow> string \<Rightarrow> string list" where
  "split_acc w [] = (if w = [] then [] else [w])"
| "split_acc w (c # cs) =
     (if is_space c then (if w = [] then split_acc [] cs else w # split_acc [] cs)
      else split_acc (w @ [c]) cs)"

definition py_split :: "string \<Rightarrow> string list" where
  "py_split s = split_acc [] s"

text \<open>\<open>sep.join(xs)\<close>.\<close>

fun join :: "string \<Rightarrow> string list \<Rightarrow> string" where
  "join sep [] = []"
| "join sep [x] = x"
| "join sep (x # y # ys) = x @ sep @ join sep (y # ys)"

text \<open>\<open>s.strip()\<close>, \<open>s.startswith(p)\<close> and \<open>s.split('\n')\<close>.\<close>

definition strip :: "string \<Rightarrow> string" where
  "strip s = rev (dropWhile is_space (rev (dropWhile is_space s)))"

fun startswith :: "string \<Rightarrow> string \<Rightarrow> bool" where
  "startswith s [] = True"
| "startswith [] (p # ps) = False"
| "startswith (c # cs) (p # ps) = (c = p \<and> startswith cs ps)"

fun split_lines_acc :: "string \<Rightarrow> string \<Rightarrow> string list" where
  "split_lines_acc w [] = [w]"
| "split_lines_acc w (c # cs) =
     (if c = CHR 0x0A then w # split_lines_acc [] cs else split_lines_acc (w @ [c]) cs)"

definition split_lines :: "string \<Rightarrow> string list" where
  "split_lines s = split_lines_acc [] s"

text \<open>\<open>str(n)\<close> for a non-negative integer: its decimal digits.\<close>

definition digit_char :: "nat \<Rightarrow> char" where
  "digit_char d = ''0123456789'' ! d"

fun str_of_nat :: "nat \<Rightarrow> string" where
  "str_of_nat n = (if n < 10 then [digit_char n] else str_of_nat (n div 10) @ [digit_char (n mod 10)])"

declare str_of_nat.simps [simp del]

section \<open>The regular expressions of the parser\<close>

text \<open>
  Python's \<open>re\<close> is a backtracking matcher: a greedy repetition tries the longest run
  first, a lazy one the shortest, an alternation its branches from left to right, and
  the first path that succeeds is the match. The patterns of the source are sequences of
  the atoms below; every repetition in them is \<open>+\<close> or \<open>+?\<close> over a character class,
  and every group encloses exactly one repetition.
\<close>

datatype cls =
    Digit           \<comment> \<open>\<open>\d\<close>\<close>
  | Space           \<comment> \<open>\<open>\s\<close>\<close>
  | NotColonSpace   \<comment> \<open>\<open>[^:\s]\<close>\<close>
  | NotSpaceAt      \<comment> \<open>\<open>[^\s@]\<close>\<close>
  | NotSpace        \<comment> \<open>\<open>[^\s]\<close>\<close>

fun in_cls :: "cls \<Rightarrow> char \<Rightarrow> bool" where
  "in_cls Digit c = is_digit c"
| "in_cls Space c = is_space c"
| "in_cls NotColonSpace c = (c \<noteq> CHR '':'' \<and> \<not> is_space c)"
| "in_cls NotSpaceAt c = (\<not> is_space c \<and> c \<noteq> CHR ''@'')"
| "in_cls NotSpace c = (\<not> is_space c)"

datatype atom =
    Ch char            \<comment> \<open>a literal character\<close>
  | Many cls           \<comment> \<open>\<open>k+\<close>, greedy, not captured\<close>
  | Grp_Many cls       \<comment> \<open>\<open>(k+)\<close>, greedy, captured\<close>
  | Grp_Few cls        \<comment> \<open>\<open>(k+?)\<close>, lazy, captured\<close>
  | Start_or_Space     \<comment> \<open>\<open>(?:^|\s)\<close>\<close>
  | Space_or_End       \<comment> \<open>\<open>(?:\s|$)\<close>\<close>

type_synonym rmatch_result = "(string list \<times> string) option"
  \<comment> \<open>the captured groups in order, and the input left after the match\<close>

text \<open>
  \<open>many P k acc s\<close>: one or more characters of \<open>P\<close> from the front of \<open>s\<close>, the
  longest run first; \<open>k\<close> is the rest of the pattern, given the text matched and the
  input left. \<open>few\<close> is the same with the shortest run first.
\<close>

fun many :: "(char \<Rightarrow> bool) \<Rightarrow> (string \<Rightarrow> string \<Rightarrow> rmatch_result) \<Rightarrow> string \<Rightarrow> string \<Rightarrow> rmatch_result" where
  "many P k acc [] = None"
| "many P k acc (c # cs) =
     (if P c then
        (case many P k (acc @ [c]) cs of
           Some r \<Rightarrow> Some r
         | None \<Rightarrow> k (acc @ [c]) cs)
      else None)"

fun few :: "(char \<Rightarrow> bool) \<Rightarrow> (string \<Rightarrow> string \<Rightarrow> rmatch_result) \<Rightarrow> string \<Rightarrow> string \<Rightarrow> rmatch_result" where
  "few P k acc [] = None"
| "few P k acc (c # cs) =
     (if P c then
        (case k (acc @ [c]) cs of
           Some r \<Rightarrow> Some r
         | None \<Rightarrow> few P k (acc @ [c]) cs)
      else None)"

definition or_else :: "rmatch_result \<Rightarrow> rmatch_result \<Rightarrow> rmatch_result" where
  "or_else a b = (case a of Some r \<Rightarrow> Some r | None \<Rightarrow> b)"

definition capture :: "string \<Rightarrow> rmatch_result \<Rightarrow> rmatch_result" where
  "capture m res = (case res of None \<Rightarrow> None | Some (gs, r) \<Rightarrow> Some (m # gs, r))"

text \<open>
  \<open>rmatch rx b s\<close>: the pattern \<open>rx\<close> matched at the front of \<open>s\<close>; \<open>b\<close> tells
  whether this is position 0 of the whole string, where \<open>^\<close> matches. Without the
  MULTILINE flag \<open>$\<close> matches at the end of the string and before a final newline.
\<close>

primrec rmatch :: "atom list \<Rightarrow> bool \<Rightarrow> string \<Rightarrow> rmatch_result" where
  "rmatch [] b s = Some ([], s)"
| "rmatch (a # as) b s =
     (case a of
        Ch c \<Rightarrow> (case s of [] \<Rightarrow> None | x # xs \<Rightarrow> if x = c then rmatch as False xs else None)
      | Many k \<Rightarrow> many (in_cls k) (\<lambda>m r. rmatch as False r) [] s
      | Grp_Many k \<Rightarrow> many (in_cls k) (\<lambda>m r. capture m (rmatch as False r)) [] s
      | Grp_Few k \<Rightarrow> few (in_cls k) (\<lambda>m r. capture m (rmatch as False r)) [] s
      | Start_or_Space \<Rightarrow>
          or_else (if b then rmatch as b s else None)
            (case s of [] \<Rightarrow> None | x # xs \<Rightarrow> if is_space x then rmatch as False xs else None)
      | Space_or_End \<Rightarrow>
          or_else (case s of [] \<Rightarrow> None | x # xs \<Rightarrow> if is_space x then rmatch as False xs else None)
            (if s = [] \<or> s = [CHR 0x0A] then rmatch as b s else None))"

text \<open>\<open>re.search\<close>: the match at the leftmost position that has one.\<close>

fun search :: "atom list \<Rightarrow> bool \<Rightarrow> string \<Rightarrow> rmatch_result" where
  "search rx b [] = rmatch rx b []"
| "search rx b (x # xs) = or_else (rmatch rx b (x # xs)) (search rx False xs)"

text \<open>
  \<open>re.findall\<close>: the groups of the successive non-overlapping matches, each search
  starting where the match before ended. Every pattern of the source consumes at least
  three characters; the scan stops at a match that consumes nothing, which none of them
  has.
\<close>

function findall :: "atom list \<Rightarrow> bool \<Rightarrow> string \<Rightarrow> string list list" where
  "findall rx b s =
     (case search rx b s of
        None \<Rightarrow> []
      | Some (gs, r) \<Rightarrow> if length r < length s then gs # findall rx False r else [gs])"
  by pat_completeness auto
termination
  by (relation "measure (\<lambda>(rx, b, s). length s)") auto

declare findall.simps [simp del]

section \<open>Tunnel configurations\<close>

text \<open>
  A tunnel configuration is the dictionary that \<open>parse_ssh_command\<close> builds; every key
  of it is always present. An entry of \<open>forwards\<close> is a dictionary with the three keys
  \<open>local_port\<close>, \<open>remote_host\<close> and \<open>remote_port\<close>.
\<close>

datatype tunnel_type = Local | Remote | Dynamic
  \<comment> \<open>the strings \<open>'local'\<close>, \<open>'remote'\<close>, \<open>'dynamic'\<close>\<close>

record forward =
  fw_local_port :: string
  fw_remote_host :: string
  fw_remote_port :: string

record config =
  ttype :: tunnel_type
  ssh_port :: string
  local_port :: string
  remote_host :: string
  remote_port :: string
  ssh_user :: string
  ssh_host :: string
  name :: string
  forwards :: "forward list"

datatype parse_error =
    NotAnSshCommand    \<comment> \<open>\<open>ValueError("Command must start with 'ssh'")\<close>\<close>
  | MissingUserHost    \<comment> \<open>\<open>ValueError("Could not find user@host in command")\<close>\<close>

section \<open>SSHCommandParser.parse_ssh_command\<close>

definition default_config :: config where
  "default_config =
     \<lparr>ttype = Local, ssh_port = ''22'', local_port = [], remote_host = ''localhost'',
      remote_port = [], ssh_user = [], ssh_host = [], name = [], forwards = []\<rparr>"

text \<open>\<open>-L\s+(\d+):([^:\s]+):(\d+)\<close> and \<open>-R\s+(\d+):([^:\s]+):(\d+)\<close>, by their flag letter.\<close>

definition rx_forward :: "char \<Rightarrow> atom list" where
  "rx_forward f =
     [Ch CHR ''-'', Ch f, Many Space, Grp_Many Digit, Ch CHR '':'', Grp_Many NotColonSpace,
      Ch CHR '':'', Grp_Many Digit]"

text \<open>\<open>-D\s+(\d+)\<close> and \<open>-p\s+(\d+)\<close>, by their flag letter.\<close>

definition rx_option :: "char \<Rightarrow> atom list" where
  "rx_option f = [Ch CHR ''-'', Ch f, Many Space, Grp_Many Digit]"

text \<open>\<open>(?:^|\s)([^\s@]+)@([^\s]+?)(?:\s|$)\<close>.\<close>

definition rx_user_host :: "atom list" where
  "rx_user_host = [Start_or_Space, Grp_Many NotSpaceAt, Ch CHR ''@'', Grp_Few NotSpace, Space_or_End]"

text \<open>\<open>command = ' '.join(command.split())\<close>.\<close>

definition normalize :: "string \<Rightarrow> string" where
  "normalize command = join '' '' (py_split command)"

definition local_matches :: "string \<Rightarrow> string list list" where
  "local_matches command = findall (rx_forward CHR ''L'') True (normalize command)"

definition remote_matches :: "string \<Rightarrow> string list list" where
  "remote_matches command = findall (rx_forward CHR ''R'') True (normalize command)"

definition dynamic_match :: "string \<Rightarrow> rmatch_result" where
  "dynamic_match command = search (rx_option CHR ''D'') True (normalize command)"

definition port_match :: "string \<Rightarrow> rmatch_result" where
  "port_match command = search (rx_option CHR ''p'') True (normalize command)"

definition user_host_match :: "string \<Rightarrow> rmatch_result" where
  "user_host_match command = search rx_user_host True (normalize command)"

text \<open>The block under \<open>if local_matches:\<close>; a match is the list of its three groups.\<close>

definition local_forward :: "string list \<Rightarrow> forward" where
  "local_forward m = \<lparr>fw_local_port = m ! 0, fw_remote_host = m ! 1, fw_remote_port = m ! 2\<rparr>"

definition set_local :: "string list list \<Rightarrow> config \<Rightarrow> config" where
  "set_local ms cfg =
     (if ms = [] then cfg
      else if length ms = 1 then
        cfg\<lparr>ttype := Local, local_port := hd ms ! 0, remote_host := hd ms ! 1,
            remote_port := hd ms ! 2\<rparr>
      else
        cfg\<lparr>ttype := Local, forwards := map local_forward ms, local_port := hd ms ! 0\<rparr>)"

text \<open>The block under \<open>if remote_matches:\<close>.\<close>

definition remote_forward :: "string list \<Rightarrow> forward" where
  "remote_forward m = \<lparr>fw_local_port = m ! 2, fw_remote_host = m ! 1, fw_remote_port = m ! 0\<rparr>"

definition set_remote :: "string list list \<Rightarrow> config \<Rightarrow> config" where
  "set_remote ms cfg =
     (if ms = [] then cfg
      else if length ms = 1 then
        cfg\<lparr>ttype := Remote, remote_port := hd ms ! 0, remote_host := hd ms ! 1,
            local_port := hd ms ! 2\<rparr>
      else
        cfg\<lparr>ttype := Remote, forwards := map remote_forward ms, remote_port := hd ms ! 0\<rparr>)"

text \<open>The blocks under \<open>if dynamic_match:\<close> and \<open>if port_match:\<close>; \<open>group(1)\<close> is the first group.\<close>

definition set_dynamic :: "rmatch_result \<Rightarrow> config \<Rightarrow> config" where
  "set_dynamic dm cfg =
     (case dm of None \<Rightarrow> cfg | Some (gs, r) \<Rightarrow> cfg\<lparr>ttype := Dynamic, local_port := gs ! 0\<rparr>)"

definition set_port :: "rmatch_result \<Rightarrow> config \<Rightarrow> config" where
  "set_port pm cfg = (case pm of None \<Rightarrow> cfg | Some (gs, r) \<Rightarrow> cfg\<lparr>ssh_port := gs ! 0\<rparr>)"

text \<open>The default name, by type and by whether \<open>forwards\<close> is non-empty.\<close>

definition default_name :: "config \<Rightarrow> string" where
  "default_name cfg =
     (case ttype cfg of
        Local \<Rightarrow>
          (if forwards cfg \<noteq> [] then ssh_host cfg @ ''_L'' @ str_of_nat (length (forwards cfg)) @ ''x''
           else ssh_host cfg @ ''_L'' @ local_port cfg)
      | Remote \<Rightarrow>
          (if forwards cfg \<noteq> [] then ssh_host cfg @ ''_R'' @ str_of_nat (length (forwards cfg)) @ ''x''
           else ssh_host cfg @ ''_R'' @ remote_port cfg)
      | Dynamic \<Rightarrow> ssh_host cfg @ ''_D'' @ local_port cfg)"

definition parse_ssh_command :: "string \<Rightarrow> parse_error + config" where
  "parse_ssh_command command =
     (if \<not> startswith (normalize command) ''ssh'' then Inl NotAnSshCommand
      else
        let cfg = set_local (local_matches command) default_config;
            cfg = set_remote (remote_matches command) cfg;
            cfg = set_dynamic (dynamic_match command) cfg;
            cfg = set_port (port_match command) cfg
        in case user_host_match command of
             None \<Rightarrow> Inl MissingUserHost
           | Some (gs, r) \<Rightarrow>
               let cfg = cfg\<lparr>ssh_user := gs ! 0, ssh_host := gs ! 1\<rparr>
               in Inr (cfg\<lparr>name := default_name cfg\<rparr>))"

section \<open>SSHCommandParser.export_to_command\<close>

text \<open>The text of one forward, \<open>f"{a}:{b}:{c}"\<close>.\<close>

definition triple :: "string \<Rightarrow> string \<Rightarrow> string \<Rightarrow> string" where
  "triple a b c = a @ '':'' @ b @ '':'' @ c"

text \<open>The flags that the branch on the type appends to \<open>"ssh -N"\<close>.\<close>

definition export_flags :: "config \<Rightarrow> string" where
  "export_flags cfg =
     (case ttype cfg of
        Local \<Rightarrow>
          (if forwards cfg \<noteq> [] then
             concat (map (\<lambda>f. '' -L '' @ triple (fw_local_port f) (fw_remote_host f) (fw_remote_port f))
                       (forwards cfg))
           else '' -L '' @ triple (local_port cfg) (remote_host cfg) (remote_port cfg))
      | Remote \<Rightarrow>
          (if forwards cfg \<noteq> [] then
             concat (map (\<lambda>f. '' -R '' @ triple (fw_remote_port f) (fw_remote_host f) (fw_local_port f))
                       (forwards cfg))
           else '' -R '' @ triple (remote_port cfg) (remote_host cfg) (local_port cfg))
      | Dynamic \<Rightarrow> '' -D '' @ local_port cfg)"

definition export_to_command :: "config \<Rightarrow> string" where
  "export_to_command cfg =
     ''ssh -N'' @ export_flags cfg
       @ (if ssh_port cfg \<noteq> ''22'' then '' -p '' @ ssh_port cfg else [])
       @ '' '' @ ssh_user cfg @ ''@'' @ ssh_host cfg"

section \<open>The argument vector of SSHTunnelManager.start_tunnel\<close>

definition start_flags :: "config \<Rightarrow> string list" where
  "start_flags cfg =
     (case ttype cfg of
        Local \<Rightarrow>
          (if forwards cfg \<noteq> [] then
             concat (map (\<lambda>f. [''-L'', triple (fw_local_port f) (fw_remote_host f) (fw_remote_port f)])
                       (forwards cfg))
           else [''-L'', triple (local_port cfg) (remote_host cfg) (remote_port cfg)])
      | Remote \<Rightarrow>
          (if forwards cfg \<noteq> [] then
             concat (map (\<lambda>f. [''-R'', triple (fw_remote_port f) (fw_remote_host f) (fw_local_port f)])
                       (forwards cfg))
           else [''-R'', triple (remote_port cfg) (remote_host cfg) (local_port cfg)])
      | Dynamic \<Rightarrow> [''-D'', local_port cfg])"

definition start_cmd :: "config \<Rightarrow> string list" where
  "start_cmd cfg =
     [''ssh'', ''-N''] @ start_flags cfg @ [''-p'', ssh_port cfg, ssh_user cfg @ ''@'' @ ssh_host cfg]"

section \<open>SSHTunnelManager\<close>

text \<open>
  The manager's only field is the dictionary \<open>tunnels\<close> from tunnel identifiers to
  \<open>Popen\<close> objects, kept here in insertion order with the handle of each process. The
  processes themselves live in the operating system: \<open>procs\<close> gives each handle its
  process, \<open>spawned\<close> counts the handles given out. What the environment decides is
  part of the model: whether \<open>Popen\<close> raises is an argument of \<open>start_tunnel\<close>, and
  each process carries what \<open>wait(timeout=5)\<close> will do once it is sent \<open>terminate()\<close>.
\<close>

datatype wait_outcome =
    Exits          \<comment> \<open>the process exits within the timeout\<close>
  | Times_Out      \<comment> \<open>\<open>subprocess.TimeoutExpired\<close>\<close>
  | Wait_Fails     \<comment> \<open>any other exception\<close>

datatype signal = SIGTERM | SIGKILL

record process =
  argv :: "string list"
  running :: bool               \<comment> \<open>\<open>poll() is None\<close>\<close>
  on_terminate :: wait_outcome
  received :: "signal list"

record manager =
  tunnels :: "(string \<times> nat) list"
  procs :: "nat \<Rightarrow> process"
  spawned :: nat

datatype popen_outcome =
    Popen_Raises string          \<comment> \<open>the text of the exception\<close>
  | Popen_Starts wait_outcome    \<comment> \<open>a new running process, and how it will take \<open>terminate()\<close>\<close>

datatype start_error =
    AlreadyRunning        \<comment> \<open>\<open>(False, "Tunnel already running")\<close>\<close>
  | SpawnError string     \<comment> \<open>\<open>(False, str(e))\<close>\<close>

datatype stop_result =
    Stopped        \<comment> \<open>\<open>(True, "Tunnel stopped")\<close>\<close>
  | NotFound       \<comment> \<open>\<open>(False, "Tunnel not found")\<close>\<close>
  | Stop_Raised    \<comment> \<open>an exception left \<open>stop_tunnel\<close>\<close>

definition init_manager :: manager where
  "init_manager =
     \<lparr>tunnels = [],
      procs = (\<lambda>h. \<lparr>argv = [], running = False, on_terminate = Exits, received = []\<rparr>),
      spawned = 0\<rparr>"

definition is_running :: "string \<Rightarrow> manager \<Rightarrow> bool" where
  "is_running tunnel_id m =
     (case map_of (tunnels m) tunnel_id of
        Some h \<Rightarrow> running (procs m h)
      | None \<Rightarrow> False)"

definition start_tunnel :: "popen_outcome \<Rightarrow> string \<Rightarrow> config \<Rightarrow> manager \<Rightarrow> (start_error + unit) \<times> manager" where
  "start_tunnel env tunnel_id cfg m =
     (if (case map_of (tunnels m) tunnel_id of Some h \<Rightarrow> running (procs m h) | None \<Rightarrow> False)
      then (Inl AlreadyRunning, m)
      else
        (case env of
           Popen_Raises e \<Rightarrow> (Inl (SpawnError e), m)
         | Popen_Starts w \<Rightarrow>
             (Inr (),
              m\<lparr>procs := (procs m)(spawned m :=
                    \<lparr>argv = start_cmd cfg, running = True, on_terminate = w, received = []\<rparr>),
                tunnels := AList.update tunnel_id (spawned m) (tunnels m),
                spawned := Suc (spawned m)\<rparr>)))"

text \<open>\<open>process.terminate()\<close>, then \<open>process.wait(timeout=5)\<close>, then \<open>process.kill()\<close>.\<close>

definition send :: "signal \<Rightarrow> nat \<Rightarrow> manager \<Rightarrow> manager" where
  "send sg h m = m\<lparr>procs := (procs m)(h := (procs m h)\<lparr>received := received (procs m h) @ [sg]\<rparr>)\<rparr>"

definition exited :: "nat \<Rightarrow> manager \<Rightarrow> manager" where
  "exited h m = m\<lparr>procs := (procs m)(h := (procs m h)\<lparr>running := False\<rparr>)\<rparr>"

definition forget :: "string \<Rightarrow> manager \<Rightarrow> manager" where
  "forget tunnel_id m = m\<lparr>tunnels := AList.delete tunnel_id (tunnels m)\<rparr>"

definition stop_tunnel :: "string \<Rightarrow> manager \<Rightarrow> stop_result \<times> manager" where
  "stop_tunnel tunnel_id m =
     (case map_of (tunnels m) tunnel_id of
        None \<Rightarrow> (NotFound, m)
      | Some h \<Rightarrow>
          if running (procs m h) then
            (case on_terminate (procs m h) of
               Exits \<Rightarrow> (Stopped, forget tunnel_id (exited h (send SIGTERM h m)))
             | Times_Out \<Rightarrow> (Stopped, forget tunnel_id (exited h (send SIGKILL h (send SIGTERM h m))))
             | Wait_Fails \<Rightarrow> (Stop_Raised, send SIGTERM h m))
          else (Stopped, forget tunnel_id m))"

text \<open>
  \<open>cleanup\<close> stops the identifiers of \<open>list(self.tunnels.keys())\<close> in order; an
  exception from \<open>stop_tunnel\<close> leaves the loop. The flag tells whether it returned.
\<close>

fun stop_all :: "string list \<Rightarrow> manager \<Rightarrow> bool \<times> manager" where
  "stop_all [] m = (True, m)"
| "stop_all (k # ks) m =
     (case stop_tunnel k m of
        (Stop_Raised, m') \<Rightarrow> (False, m')
      | (_, m') \<Rightarrow> stop_all ks m')"

definition cleanup :: "manager \<Rightarrow> bool \<times> manager" where
  "cleanup m = stop_all (map fst (tunnels m)) m"

definition live :: "manager \<Rightarrow> nat list" where
  "live m = filter (\<lambda>h. running (procs m h)) [0..<spawned m]"

section \<open>The batch import of EasySSHTunnelApp.on_import_command\<close>

text \<open>\<open>input_text.replace('\\\n', ' ')\<close>.\<close>

fun replace_continuations :: "string \<Rightarrow> string" where
  "replace_continuations (a # b # cs) =
     (if a = CHR 0x5C \<and> b = CHR 0x0A then CHR '' '' # replace_continuations cs
      else a # replace_continuations (b # cs))"
| "replace_continuations cs = cs"

text \<open>
  The local variables of the loop. An entry of \<open>error_messages\<close> is the line number
  and the error whose text follows \<open>"Line n: "\<close>; an orphaned line records the text
  \<open>"Command must start with 'ssh'"\<close>, which is that of \<open>NotAnSshCommand\<close>.
\<close>

record batch =
  imported_count :: nat
  failed_count :: nat
  error_messages :: "(nat \<times> parse_error) list"
  existing_names :: "string list"
  tunnels_config :: "config list"
  pending_name :: "string option"
  current_command :: "string list"
  command_start_line :: nat

text \<open>
  Making a name unique: \<open>counter = 1\<close>, then
  \<open>while f"{base_name}_{counter}" in existing_names: counter += 1\<close>. The loop ends
  because the decimal numerals of distinct numbers differ, so that each round leaves
  fewer names of the form \<open>base_name_k\<close> with \<open>k\<close> at or above the counter.
\<close>

lemma digit_char_inj: "a < 10 \<Longrightarrow> b < 10 \<Longrightarrow> digit_char a = digit_char b \<Longrightarrow> a = b"
proof -
  have d: "distinct ''0123456789''" by simp
  assume "a < 10" "b < 10" "digit_char a = digit_char b"
  then show ?thesis
    using d unfolding digit_char_def by (simp add: nth_eq_iff_index_eq)
qed

lemma str_of_nat_nonempty: "str_of_nat n \<noteq> []"
  by (subst str_of_nat.simps) simp

lemma str_of_nat_inj: "str_of_nat n = str_of_nat m \<Longrightarrow> n = m"
proof (induction n arbitrary: m rule: str_of_nat.induct)
  case (1 n)
  show ?case
  proof (cases "n < 10")
    case True
    then have sn: "str_of_nat n = [digit_char n]" by (subst str_of_nat.simps) simp
    show ?thesis
    proof (cases "m < 10")
      case m: True
      then have "str_of_nat m = [digit_char m]" by (subst str_of_nat.simps) simp
      with sn "1.prems" True m show ?thesis by (auto dest: digit_char_inj)
    next
      case m: False
      then have "str_of_nat m = str_of_nat (m div 10) @ [digit_char (m mod 10)]"
        by (subst str_of_nat.simps) simp
      with sn "1.prems" str_of_nat_nonempty [of "m div 10"] show ?thesis by simp
    qed
  next
    case False
    then have sn: "str_of_nat n = str_of_nat (n div 10) @ [digit_char (n mod 10)]"
      by (subst str_of_nat.simps) simp
    show ?thesis
    proof (cases "m < 10")
      case m: True
      then have "str_of_nat m = [digit_char m]" by (subst str_of_nat.simps) simp
      with sn "1.prems" str_of_nat_nonempty [of "n div 10"] show ?thesis by simp
    next
      case m: False
      then have sm: "str_of_nat m = str_of_nat (m div 10) @ [digit_char (m mod 10)]"
        by (subst str_of_nat.simps) simp
      from sn sm "1.prems" have e1: "str_of_nat (n div 10) = str_of_nat (m div 10)"
        and e2: "digit_char (n mod 10) = digit_char (m mod 10)" by simp_all
      from "1.IH" [OF False e1] have d: "n div 10 = m div 10" .
      have "n mod 10 = m mod 10" by (rule digit_char_inj [OF _ _ e2]) simp_all
      with d show ?thesis by (metis div_mult_mod_eq)
    qed
  qed
qed

function next_free :: "string \<Rightarrow> string list \<Rightarrow> nat \<Rightarrow> nat" where
  "next_free base_name names counter =
     (if base_name @ ''_'' @ str_of_nat counter \<in> set names
      then next_free base_name names (Suc counter) else counter)"
  by pat_completeness auto
termination
proof (relation "measure (\<lambda>(base_name, names, counter).
          length (filter (\<lambda>n. \<exists>k\<ge>counter. n = base_name @ ''_'' @ str_of_nat k) names))", goal_cases)
  case 1
  show ?case by simp
next
  case (2 base_name names counter)
  let ?P = "\<lambda>c n. \<exists>k\<ge>c. n = base_name @ ''_'' @ str_of_nat k"
  let ?x = "base_name @ ''_'' @ str_of_nat counter"
  have imp: "?P (Suc counter) n \<Longrightarrow> ?P counter n" for n using Suc_leD by blast
  have sub: "filter (?P (Suc counter)) names = filter (?P (Suc counter)) (filter (?P counter) names)"
    unfolding filter_filter by (rule filter_cong [OF refl]) (use imp in blast)
  have mem: "?x \<in> set (filter (?P counter) names)" using 2 by auto
  have "\<not> ?P (Suc counter) ?x" by (auto dest: str_of_nat_inj)
  with mem have "length (filter (?P (Suc counter)) (filter (?P counter) names)) < length (filter (?P counter) names)"
    by (rule length_filter_less)
  with sub show ?case by simp
qed

text \<open>
  Flushing the accumulated command: the body of the \<open>try\<close> and its handler.
  \<open>err_line\<close> is the line number that the handler writes into its message.
\<close>

definition flush :: "nat \<Rightarrow> batch \<Rightarrow> batch" where
  "flush err_line st =
     (case parse_ssh_command (join '' '' (current_command st)) of
        Inr cfg \<Rightarrow>
          let cfg = (case pending_name st of
                       Some n \<Rightarrow> if n \<noteq> [] then cfg\<lparr>name := n\<rparr> else cfg
                     | None \<Rightarrow> cfg);
              cfg = (if name cfg \<in> set (existing_names st)
                     then cfg\<lparr>name := name cfg @ ''_''
                             @ str_of_nat (next_free (name cfg) (existing_names st) 1)\<rparr>
                     else cfg)
          in st\<lparr>existing_names := existing_names st @ [name cfg],
                tunnels_config := tunnels_config st @ [cfg],
                imported_count := imported_count st + 1,
                pending_name := None\<rparr>
      | Inl e \<Rightarrow>
          st\<lparr>failed_count := failed_count st + 1,
             error_messages := error_messages st @ [(err_line, e)],
             pending_name := None\<rparr>)"

text \<open>The body of the loop \<open>for line_num, line in enumerate(lines, 1)\<close>.\<close>

definition import_line :: "nat \<Rightarrow> string \<Rightarrow> batch \<Rightarrow> batch" where
  "import_line line_num raw st =
     (let line = strip raw in
      if line = [] then st
      else if startswith line ''#'' then
        let st = (if current_command st \<noteq> []
                  then (flush (command_start_line st) st)\<lparr>current_command := []\<rparr>
                  else st);
            comment_text = strip (tl line)
        in if comment_text \<noteq> [] then st\<lparr>pending_name := Some comment_text\<rparr> else st
      else if startswith line ''ssh'' then
        let st = (if current_command st \<noteq> [] then flush (command_start_line st) st else st)
        in st\<lparr>current_command := [line], command_start_line := line_num\<rparr>
      else if current_command st \<noteq> [] then st\<lparr>current_command := current_command st @ [line]\<rparr>
      else st\<lparr>failed_count := failed_count st + 1,
              error_messages := error_messages st @ [(line_num, NotAnSshCommand)]\<rparr>)"

fun import_lines :: "nat \<Rightarrow> string list \<Rightarrow> batch \<Rightarrow> batch" where
  "import_lines line_num [] st = st"
| "import_lines line_num (l # ls) st = import_lines (Suc line_num) ls (import_line line_num l st)"

text \<open>
  The whole import, from the text of the dialog and the configurations already saved.
  After the loop \<open>line_num\<close> still holds the number of the last line, which is the
  number of lines; the flush after the loop passes it to its handler.
\<close>

definition init_batch :: "config list \<Rightarrow> batch" where
  "init_batch saved =
     \<lparr>imported_count = 0, failed_count = 0, error_messages = [],
      existing_names = map name saved, tunnels_config = saved, pending_name = None,
      current_command = [], command_start_line = 0\<rparr>"

definition import_text :: "config list \<Rightarrow> string \<Rightarrow> batch" where
  "import_text saved input_text =
     (let lines = split_lines (replace_continuations input_text);
          st = import_lines 1 lines (init_batch saved)
      in if current_command st \<noteq> [] then flush (length lines) st else st)"

section \<open>Predicates and examples of the statements\<close>

text \<open>A token: a non-empty string free of whitespace.\<close>

definition clean :: "string \<Rightarrow> bool" where
  "clean t = (t \<noteq> [] \<and> list_all (\<lambda>c. \<not> is_space c) t)"

text \<open>
  The tokens that \<open>export_to_command\<close> writes, separated by single blanks: those of
  \<open>start_cmd\<close>, but with \<open>-p\<close> and the port only when the port is not \<open>'22'\<close>.
\<close>

definition export_tokens :: "config \<Rightarrow> string list" where
  "export_tokens cfg =
     [''ssh'', ''-N''] @ start_flags cfg
       @ (if ssh_port cfg \<noteq> ''22'' then [''-p'', ssh_port cfg] else [])
       @ [ssh_user cfg @ ''@'' @ ssh_host cfg]"

text \<open>No tracked process that is still running fails its \<open>wait\<close>.\<close>

definition safe :: "manager \<Rightarrow> bool" where
  "safe m = list_all (\<lambda>(k, h). \<not> (running (procs m h) \<and> on_terminate (procs m h) = Wait_Fails)) (tunnels m)"

text \<open>A manager that has started the one tunnel \<open>db\<close>.\<close>

definition one_tunnel :: "wait_outcome \<Rightarrow> manager" where
  "one_tunnel w = snd (start_tunnel (Popen_Starts w) ''db'' default_config init_manager)"

text \<open>The configuration of \<open>ssh -L 8080:localhost:80 alice@example.com\<close>.\<close>

definition spec_example :: config where
  "spec_example =
     \<lparr>ttype = Local, ssh_port = ''22'', local_port = ''8080'', remote_host = ''localhost'',
      remote_port = ''80'', ssh_user = ''alice'', ssh_host = ''example.com'',
      name = ''example.com_L8080'', forwards = []\<rparr>"

text \<open>A batch of a comment line and the same command twice.\<close>

definition spec_batch :: string where
  "spec_batch = ''# my-tunnel'' @ [CHR 0x0A] @ ''ssh -L 9000:localhost:9000 dave@h1'' @ [CHR 0x0A]
      @ ''ssh -L 9000:localhost:9000 dave@h1''"

text \<open>The texts that the patterns capture: decimal digits, a remote host, a user name.\<close>

definition digits :: "string \<Rightarrow> bool" where
  "digits d = (d \<noteq> [] \<and> list_all is_digit d)"

definition host_text :: "string \<Rightarrow> bool" where
  "host_text h = (h \<noteq> [] \<and> list_all (\<lambda>c. c \<noteq> CHR '':'' \<and> \<not> is_space c) h)"

definition user_text :: "string \<Rightarrow> bool" where
  "user_text u = (u \<noteq> [] \<and> list_all (\<lambda>c. \<not> is_space c \<and> c \<noteq> CHR ''@'') u)"

text \<open>
  The forwards that \<open>export_to_command\<close> and \<open>start_tunnel\<close> read from a local or
  remote configuration: the list \<open>forwards\<close> when it is not empty, else the one forward
  of the fields \<open>local_port\<close>, \<open>remote_host\<close> and \<open>remote_port\<close>.
\<close>

definition legacy_forward :: "config \<Rightarrow> forward" where
  "legacy_forward cfg =
     \<lparr>fw_local_port = local_port cfg, fw_remote_host = remote_host cfg, fw_remote_port = remote_port cfg\<rparr>"

definition read_forwards :: "config \<Rightarrow> forward list" where
  "read_forwards cfg = (if forwards cfg \<noteq> [] then forwards cfg else [legacy_forward cfg])"

text \<open>The remote hosts that \<open>export_to_command\<close> writes into its text.\<close>

definition exported_hosts :: "config \<Rightarrow> string list" where
  "exported_hosts cfg = (if ttype cfg = Dynamic then [] else map fw_remote_host (read_forwards cfg))"

text \<open>The configuration that the four flag patterns leave, before user, host and name.\<close>

definition matched :: "string list list \<Rightarrow> string list list \<Rightarrow> rmatch_result \<Rightarrow> rmatch_result \<Rightarrow> config" where
  "matched lm rm dm pm = set_port pm (set_dynamic dm (set_remote rm (set_local lm default_config)))"

text \<open>
  The configurations that the parser returns are well formed: ports of digits, a user
  and a host from the last pattern, never exactly one stored forward, and forwards that
  the forward pattern has captured (or, for a local tunnel, the untouched defaults).
\<close>

definition valid_forward :: "forward \<Rightarrow> bool" where
  "valid_forward f = (digits (fw_local_port f) \<and> host_text (fw_remote_host f) \<and> digits (fw_remote_port f))"

definition valid_triple :: "string list \<Rightarrow> bool" where
  "valid_triple m = (length m = 3 \<and> digits (m ! 0) \<and> host_text (m ! 1) \<and> digits (m ! 2))"

definition well_formed :: "config \<Rightarrow> bool" where
  "well_formed cfg =
     (digits (ssh_port cfg) \<and> user_text (ssh_user cfg) \<and> clean (ssh_host cfg) \<and>
      length (forwards cfg) \<noteq> 1 \<and>
      (case ttype cfg of
         Dynamic \<Rightarrow> digits (local_port cfg)
       | Remote \<Rightarrow> list_all valid_forward (read_forwards cfg)
       | Local \<Rightarrow>
           list_all valid_forward (read_forwards cfg) \<or>
           forwards cfg = [] \<and> legacy_forward cfg = legacy_forward default_config))"

text \<open>The pattern of \<open>user@host\<close> without its first atom.\<close>

definition rx_at_host :: "atom list" where
  "rx_at_host = [Grp_Many NotSpaceAt, Ch CHR ''@'', Grp_Few NotSpace, Space_or_End]"

text \<open>
  A flag pattern: it only matches at a dash, the flag letter and a whitespace character,
  it consumes input, and it does not look at the position.
\<close>

definition flag_pattern :: "atom list \<Rightarrow> char \<Rightarrow> bool" where
  "flag_pattern rx f =
     ((\<forall>b s gs r. rmatch rx b s = Some (gs, r) \<longrightarrow>
         (\<exists>w s'. s = CHR ''-'' # f # w # s' \<and> is_space w) \<and> length r < length s) \<and>
      (\<forall>b s. rmatch rx b s = rmatch rx False s))"

text \<open>A token that no match of the flag pattern can start in: no whitespace, and not ending with the flag.\<close>

definition plain :: "char \<Rightarrow> string \<Rightarrow> bool" where
  "plain f t = (list_all (\<lambda>c. \<not> is_space c) t \<and> \<not> suffix [CHR ''-'', f] t)"

text \<open>Blank-separated tokens, each with a blank in front; the end of the exported text.\<close>

abbreviation sp :: "string list \<Rightarrow> string" where
  "sp ts \<equiv> concat (map (\<lambda>x. CHR '' '' # x) ts)"

definition port_tokens :: "config \<Rightarrow> string list" where
  "port_tokens cfg = (if ssh_port cfg \<noteq> ''22'' then [''-p'', ssh_port cfg] else [])"

definition flag_letter :: "tunnel_type \<Rightarrow> char" where
  "flag_letter t = (case t of Local \<Rightarrow> CHR ''L'' | Remote \<Rightarrow> CHR ''R'' | Dynamic \<Rightarrow> CHR ''D'')"

abbreviation tail :: "config \<Rightarrow> string" where
  "tail cfg \<equiv> sp (port_tokens cfg) @ CHR '' '' # ssh_user cfg @ CHR ''@'' # ssh_host cfg"

text \<open>Parsed examples: two local forwards, a remote host with \<open>@\<close>, and forwards left over.\<close>

definition two_forwards :: config where
  "two_forwards =
     \<lparr>ttype = Local, ssh_port = ''4022'', local_port = ''27017'', remote_host = ''localhost'',
      remote_port = [], ssh_user = ''bob'', ssh_host = ''db.internal'', name = ''db.internal_L2x'',
      forwards = [\<lparr>fw_local_port = ''27017'', fw_remote_host = ''mongo-0'', fw_remote_port = ''27017''\<rparr>,
                  \<lparr>fw_local_port = ''27018'', fw_remote_host = ''mongo-1'', fw_remote_port = ''27017''\<rparr>]\<rparr>"

definition at_in_host :: config where
  "at_in_host =
     \<lparr>ttype = Local, ssh_port = ''22'', local_port = ''80'', remote_host = ''x@y'',
      remote_port = ''90'', ssh_user = ''a'', ssh_host = ''b'', name = ''b_L80'', forwards = []\<rparr>"

definition stale_forwards :: "forward list" where
  "stale_forwards =
     [\<lparr>fw_local_port = ''1'', fw_remote_host = ''a'', fw_remote_port = ''2''\<rparr>,
      \<lparr>fw_local_port = ''3'', fw_remote_host = ''b'', fw_remote_port = ''4''\<rparr>]"

section \<open>Splitting and joining\<close>

lemma is_space_blank [simp]: "is_space CHR '' ''"
  by (simp add: is_space_def)

lemma split_acc_skip: "list_all (\<lambda>c. \<not> is_space c) t \<Longrightarrow> split_acc w (t @ s) = split_acc (w @ t) s"
  by (induction t arbitrary: w) simp_all

lemma join_space: "join '' '' (t # ts) = t @ concat (map (\<lambda>x. CHR '' '' # x) ts)"
  by (induction ts arbitrary: t) simp_all

lemma join_Cons: "ts \<noteq> [] \<Longrightarrow> join sep (t # ts) = t @ sep @ join sep ts"
  by (cases ts) simp_all

lemma split_acc_tokens:
  "list_all clean ts \<Longrightarrow>
     split_acc w (concat (map (\<lambda>x. CHR '' '' # x) ts)) = (if w = [] then ts else w # ts)"
proof (induction ts arbitrary: w)
  case Nil
  then show ?case by simp
next
  case (Cons t ts)
  then have ct: "clean t" and ts: "list_all clean ts" by simp_all
  from ct have t: "t \<noteq> []" "list_all (\<lambda>c. \<not> is_space c) t" by (simp_all add: clean_def)
  let ?rest = "concat (map (\<lambda>x. CHR '' '' # x) ts)"
  have "split_acc [] (t @ ?rest) = split_acc t ?rest"
    using t by (simp add: split_acc_skip)
  also have "\<dots> = t # ts" using Cons.IH [OF ts, of t] t by simp
  finally show ?case by simp
qed

lemma py_split_join: "list_all clean ts \<Longrightarrow> py_split (join '' '' ts) = ts"
proof (cases ts)
  case Nil
  then show ?thesis by (simp add: py_split_def)
next
  case (Cons t us)
  assume a: "list_all clean ts"
  with Cons have ct: "clean t" and us: "list_all clean us" by simp_all
  from ct have t: "list_all (\<lambda>c. \<not> is_space c) t" and ne: "t \<noteq> []" by (simp_all add: clean_def)
  have "split_acc [] (t @ concat (map (\<lambda>x. CHR '' '' # x) us)) = split_acc t (concat (map (\<lambda>x. CHR '' '' # x) us))"
    using t by (simp add: split_acc_skip)
  also have "\<dots> = t # us" using split_acc_tokens [OF us, of t] ne by simp
  finally show ?thesis using Cons by (simp add: py_split_def join_space del: join.simps)
qed

lemma startswith_append_char: "c \<notin> set p \<Longrightarrow> startswith (t @ c # r) p = startswith t p"
proof (induction t arbitrary: p)
  case Nil
  then show ?case by (cases p) auto
next
  case (Cons a t)
  then show ?case by (cases p) auto
qed

lemma startswith_join: "startswith (join '' '' (t # ts)) ''ssh'' = startswith t ''ssh''"
proof (cases ts)
  case Nil
  then show ?thesis by simp
next
  case (Cons y ys)
  have "startswith (t @ CHR '' '' # join '' '' (y # ys)) ''ssh'' = startswith t ''ssh''"
    by (rule startswith_append_char) simp
  with Cons show ?thesis by simp
qed

section \<open>The supervisor\<close>

lemma map_of_delete_same: "map_of (AList.delete k al) k = None"
  by (simp add: delete_conv')

lemma keys_delete: "fst ` set (AList.delete k al) = fst ` set al - {k}"
proof -
  have "set (map fst (AList.delete k al)) = set (map fst al) - {k}"
    by (simp only: delete_keys set_removeAll)
  then show ?thesis by simp
qed

lemma tunnels_forget [simp]: "tunnels (forget k m) = AList.delete k (tunnels m)"
  and procs_forget [simp]: "procs (forget k m) = procs m"
  and spawned_forget [simp]: "spawned (forget k m) = spawned m"
  by (simp_all add: forget_def)

lemma tunnels_send [simp]: "tunnels (send sg h m) = tunnels m"
  and spawned_send [simp]: "spawned (send sg h m) = spawned m"
  and running_send [simp]: "running (procs (send sg h m) h') = running (procs m h')"
  and on_terminate_send [simp]: "on_terminate (procs (send sg h m) h') = on_terminate (procs m h')"
  by (simp_all add: send_def)

lemma tunnels_exited [simp]: "tunnels (exited h m) = tunnels m"
  and spawned_exited [simp]: "spawned (exited h m) = spawned m"
  and running_exited [simp]: "running (procs (exited h m) h') = (h' \<noteq> h \<and> running (procs m h'))"
  and on_terminate_exited [simp]: "on_terminate (procs (exited h m) h') = on_terminate (procs m h')"
  by (simp_all add: exited_def)

lemma stop_tunnel_not_found: "map_of (tunnels m) k = None \<Longrightarrow> stop_tunnel k m = (NotFound, m)"
  by (simp add: stop_tunnel_def)

lemma stop_tunnel_stopped:
  assumes "stop_tunnel k m = (Stopped, m')"
  shows "tunnels m' = AList.delete k (tunnels m)"
  using assms by (auto simp: stop_tunnel_def split: option.splits if_splits wait_outcome.splits)

lemma stop_tunnel_result:
  assumes "map_of (tunnels m) k = Some h"
  shows "fst (stop_tunnel k m) =
      (if running (procs m h) \<and> on_terminate (procs m h) = Wait_Fails then Stop_Raised else Stopped)"
  using assms by (simp add: stop_tunnel_def split: wait_outcome.splits)

lemma one_tunnel_fields:
  "tunnels (one_tunnel w) = [(''db'', 0)]" "spawned (one_tunnel w) = 1"
  "running (procs (one_tunnel w) 0)" "on_terminate (procs (one_tunnel w) 0) = w"
  by (simp_all add: one_tunnel_def start_tunnel_def init_manager_def)

text \<open>
  C6. \<open>stop_tunnel\<close> on an identifier without an entry returns \<open>NotFound\<close> and leaves
  the manager as it was. On an identifier with an entry, whenever it returns it returns
  \<open>Stopped\<close>, the entry is gone and \<open>is_running\<close> is false; and it does return when
  the process is already dead, exits within the timeout or has to be killed after it.
\<close>

theorem stop_tunnel_removes_entry:
  "(map_of (tunnels m) tunnel_id = None \<longrightarrow> stop_tunnel tunnel_id m = (NotFound, m)) \<and>
   (map_of (tunnels m) tunnel_id \<noteq> None \<and> fst (stop_tunnel tunnel_id m) \<noteq> Stop_Raised \<longrightarrow>
      fst (stop_tunnel tunnel_id m) = Stopped \<and>
      map_of (tunnels (snd (stop_tunnel tunnel_id m))) tunnel_id = None \<and>
      \<not> is_running tunnel_id (snd (stop_tunnel tunnel_id m))) \<and>
   (\<forall>h. map_of (tunnels m) tunnel_id = Some h \<and>
        (\<not> running (procs m h) \<or> on_terminate (procs m h) = Exits \<or> on_terminate (procs m h) = Times_Out) \<longrightarrow>
      fst (stop_tunnel tunnel_id m) = Stopped)"
proof (intro conjI impI allI)
  assume "map_of (tunnels m) tunnel_id = None"
  then show "stop_tunnel tunnel_id m = (NotFound, m)" by (rule stop_tunnel_not_found)
next
  assume a: "map_of (tunnels m) tunnel_id \<noteq> None \<and> fst (stop_tunnel tunnel_id m) \<noteq> Stop_Raised"
  then obtain h where h: "map_of (tunnels m) tunnel_id = Some h" by auto
  with a show st: "fst (stop_tunnel tunnel_id m) = Stopped"
    by (simp add: stop_tunnel_result split: if_splits)
  then have "stop_tunnel tunnel_id m = (Stopped, snd (stop_tunnel tunnel_id m))"
    by (simp add: prod_eq_iff)
  then have "tunnels (snd (stop_tunnel tunnel_id m)) = AList.delete tunnel_id (tunnels m)"
    by (rule stop_tunnel_stopped)
  then show g: "map_of (tunnels (snd (stop_tunnel tunnel_id m))) tunnel_id = None"
    by (simp add: map_of_delete_same)
  then show "\<not> is_running tunnel_id (snd (stop_tunnel tunnel_id m))"
    by (simp add: is_running_def)
next
  fix h
  assume "map_of (tunnels m) tunnel_id = Some h \<and>
        (\<not> running (procs m h) \<or> on_terminate (procs m h) = Exits \<or> on_terminate (procs m h) = Times_Out)"
  then show "fst (stop_tunnel tunnel_id m) = Stopped"
    by (auto simp: stop_tunnel_result)
qed

theorem stop_tunnel_removes_entry_witness:
  "map_of (tunnels init_manager) ''db'' = None \<and>
   stop_tunnel ''db'' init_manager = (NotFound, init_manager) \<and>
   map_of (tunnels (one_tunnel Times_Out)) ''db'' = Some 0 \<and>
   on_terminate (procs (one_tunnel Times_Out) 0) = Times_Out \<and>
   fst (stop_tunnel ''db'' (one_tunnel Times_Out)) = Stopped \<and>
   map_of (tunnels (snd (stop_tunnel ''db'' (one_tunnel Times_Out)))) ''db'' = None \<and>
   is_running ''db'' (snd (stop_tunnel ''db'' (one_tunnel Times_Out))) = False"
proof -
  have a: "map_of (tunnels init_manager) ''db'' = None" by (simp add: init_manager_def)
  have b: "map_of (tunnels (one_tunnel Times_Out)) ''db'' = Some 0"
    and c: "on_terminate (procs (one_tunnel Times_Out) 0) = Times_Out"
    by (simp_all add: one_tunnel_fields)
  from stop_tunnel_removes_entry [of init_manager "''db''"] a
  have 1: "stop_tunnel ''db'' init_manager = (NotFound, init_manager)" by blast
  from stop_tunnel_removes_entry [of "one_tunnel Times_Out" "''db''"] b c
  have 2: "fst (stop_tunnel ''db'' (one_tunnel Times_Out)) = Stopped" by blast
  with stop_tunnel_removes_entry [of "one_tunnel Times_Out" "''db''"] b
  have 3: "map_of (tunnels (snd (stop_tunnel ''db'' (one_tunnel Times_Out)))) ''db'' = None"
    and 4: "\<not> is_running ''db'' (snd (stop_tunnel ''db'' (one_tunnel Times_Out)))" by simp_all
  from a b c 1 2 3 4 show ?thesis by simp
qed

text \<open>
  C7. While the identifier maps to a running process \<open>start_tunnel\<close> answers
  \<open>AlreadyRunning\<close> and changes nothing. So after a start that succeeded, a second
  start of the same identifier is refused, and the live processes are those from before
  the first start and the one it spawned. When \<open>Popen\<close> raises, the answer is
  \<open>SpawnError\<close> and the manager is unchanged.
\<close>

theorem start_tunnel_already_running:
  "(is_running tunnel_id m \<longrightarrow> start_tunnel env tunnel_id cfg m = (Inl AlreadyRunning, m)) \<and>
   (start_tunnel env tunnel_id cfg m = (Inr (), m1) \<longrightarrow>
      start_tunnel env2 tunnel_id cfg2 m1 = (Inl AlreadyRunning, m1) \<and>
      live m1 = live m @ [spawned m]) \<and>
   (\<not> is_running tunnel_id m \<longrightarrow>
      start_tunnel (Popen_Raises e) tunnel_id cfg m = (Inl (SpawnError e), m))"
proof (intro conjI impI)
  assume "is_running tunnel_id m"
  then show "start_tunnel env tunnel_id cfg m = (Inl AlreadyRunning, m)"
    by (simp add: start_tunnel_def is_running_def)
next
  assume "\<not> is_running tunnel_id m"
  then show "start_tunnel (Popen_Raises e) tunnel_id cfg m = (Inl (SpawnError e), m)"
    by (simp add: start_tunnel_def is_running_def)
next
  assume a: "start_tunnel env tunnel_id cfg m = (Inr (), m1)"
  then obtain w where m1: "m1 = m\<lparr>procs := (procs m)(spawned m :=
                    \<lparr>argv = start_cmd cfg, running = True, on_terminate = w, received = []\<rparr>),
                tunnels := AList.update tunnel_id (spawned m) (tunnels m),
                spawned := Suc (spawned m)\<rparr>"
    by (auto simp: start_tunnel_def split: if_splits popen_outcome.splits)
  have "map_of (tunnels m1) tunnel_id = Some (spawned m)"
    by (simp add: m1 update_conv')
  moreover have "running (procs m1 (spawned m))" by (simp add: m1)
  ultimately show "start_tunnel env2 tunnel_id cfg2 m1 = (Inl AlreadyRunning, m1)"
    by (simp add: start_tunnel_def)
  have "filter (\<lambda>h. running (procs m1 h)) [0..<spawned m] = filter (\<lambda>h. running (procs m h)) [0..<spawned m]"
    by (rule filter_cong) (simp_all add: m1)
  then show "live m1 = live m @ [spawned m]"
    by (simp add: live_def m1)
qed

theorem start_tunnel_already_running_witness:
  "is_running ''db'' (one_tunnel Exits) \<and>
   start_tunnel (Popen_Starts Exits) ''db'' default_config init_manager = (Inr (), one_tunnel Exits) \<and>
   start_tunnel (Popen_Starts Exits) ''db'' default_config (one_tunnel Exits) = (Inl AlreadyRunning, one_tunnel Exits) \<and>
   live (one_tunnel Exits) = [0] \<and>
   is_running ''db'' init_manager = False \<and>
   start_tunnel (Popen_Raises ''No such file or directory'') ''db'' default_config init_manager
     = (Inl (SpawnError ''No such file or directory''), init_manager)"
proof -
  have a: "is_running ''db'' (one_tunnel Exits)" by (simp add: is_running_def one_tunnel_fields)
  have b: "start_tunnel (Popen_Starts Exits) ''db'' default_config init_manager = (Inr (), one_tunnel Exits)"
    by (simp add: one_tunnel_def start_tunnel_def init_manager_def)
  have c: "\<not> is_running ''db'' init_manager" by (simp add: is_running_def init_manager_def)
  have l: "live init_manager = []" "spawned init_manager = 0" by (simp_all add: live_def init_manager_def)
  note t = start_tunnel_already_running [of "''db''" init_manager "Popen_Starts Exits" default_config
      "one_tunnel Exits" "Popen_Starts Exits" default_config "''No such file or directory''"]
  from t b have 1: "start_tunnel (Popen_Starts Exits) ''db'' default_config (one_tunnel Exits) = (Inl AlreadyRunning, one_tunnel Exits)"
    and 2: "live (one_tunnel Exits) = live init_manager @ [spawned init_manager]" by blast+
  from t c have 3: "start_tunnel (Popen_Raises ''No such file or directory'') ''db'' default_config init_manager
     = (Inl (SpawnError ''No such file or directory''), init_manager)" by blast
  from a b c 1 2 3 l show ?thesis by simp
qed

lemma stop_tunnel_keys:
  assumes "stop_tunnel k m = (r, m')" and "r \<noteq> Stop_Raised"
  shows "fst ` set (tunnels m') = fst ` set (tunnels m) - {k}"
proof (cases "map_of (tunnels m) k")
  case None
  then have "k \<notin> fst ` set (tunnels m)" by (simp add: map_of_eq_None_iff)
  with None assms show ?thesis by (simp add: stop_tunnel_def)
next
  case (Some h)
  with assms have "r = Stopped"
    using stop_tunnel_result [OF Some] by (simp split: if_splits)
  with assms have "tunnels m' = AList.delete k (tunnels m)" by (simp add: stop_tunnel_stopped)
  then show ?thesis by (simp add: keys_delete)
qed

lemma stop_all_keys:
  "stop_all ks m = (True, m') \<Longrightarrow> fst ` set (tunnels m') = fst ` set (tunnels m) - set ks"
proof (induction ks arbitrary: m)
  case Nil
  then show ?case by simp
next
  case (Cons k ks)
  obtain r m1 where s: "stop_tunnel k m = (r, m1)" by (cases "stop_tunnel k m")
  with Cons.prems have r: "r \<noteq> Stop_Raised" and rest: "stop_all ks m1 = (True, m')"
    by (auto split: stop_result.splits)
  from Cons.IH [OF rest] stop_tunnel_keys [OF s r] show ?case by auto
qed

lemma safe_stop_tunnel:
  assumes "safe m" shows "fst (stop_tunnel k m) \<noteq> Stop_Raised \<and> safe (snd (stop_tunnel k m))"
proof (cases "map_of (tunnels m) k")
  case None
  with assms show ?thesis by (simp add: stop_tunnel_def)
next
  case (Some h)
  then have "(k, h) \<in> set (tunnels m)" by (rule map_of_SomeD)
  with assms have nf: "\<not> (running (procs m h) \<and> on_terminate (procs m h) = Wait_Fails)"
    by (auto simp: safe_def list_all_iff)
  have sub: "set (AList.delete k (tunnels m)) \<subseteq> set (tunnels m)"
    by (auto simp: AList.delete_eq)
  from assms sub have "safe (forget k m)" "safe (forget k (exited h (send SIGTERM h m)))"
     "safe (forget k (exited h (send SIGKILL h (send SIGTERM h m))))"
    by (auto simp: safe_def list_all_iff)
  with Some nf show ?thesis
    by (auto simp: stop_tunnel_def split: wait_outcome.splits)
qed

lemma safe_stop_all: "safe m \<Longrightarrow> fst (stop_all ks m)"
proof (induction ks arbitrary: m)
  case Nil
  then show ?case by simp
next
  case (Cons k ks)
  from safe_stop_tunnel [OF Cons.prems, of k] Cons.IH [of "snd (stop_tunnel k m)"]
  show ?case by (cases "stop_tunnel k m") (auto split: stop_result.splits)
qed

text \<open>
  C10. When \<open>cleanup\<close> returns, the dictionary is empty and \<open>is_running\<close> is false
  of every identifier; and it returns whenever no tracked running process fails its
  \<open>wait\<close>.
\<close>

theorem cleanup_empties:
  "(fst (cleanup m) \<longrightarrow> tunnels (snd (cleanup m)) = [] \<and> \<not> is_running tunnel_id (snd (cleanup m))) \<and>
   (safe m \<longrightarrow> fst (cleanup m))"
proof (intro conjI impI)
  assume "fst (cleanup m)"
  then have "stop_all (map fst (tunnels m)) m = (True, snd (cleanup m))"
    by (simp add: cleanup_def prod_eq_iff)
  from stop_all_keys [OF this] have "fst ` set (tunnels (snd (cleanup m))) = {}" by simp
  then show e: "tunnels (snd (cleanup m)) = []" by simp
  then show "\<not> is_running tunnel_id (snd (cleanup m))" by (simp add: is_running_def)
next
  assume "safe m"
  then show "fst (cleanup m)" unfolding cleanup_def by (rule safe_stop_all)
qed

theorem cleanup_empties_witness:
  "safe (one_tunnel Times_Out) \<and> fst (cleanup (one_tunnel Times_Out)) \<and>
   tunnels (snd (cleanup (one_tunnel Times_Out))) = [] \<and>
   is_running ''db'' (snd (cleanup (one_tunnel Times_Out))) = False"
proof -
  have a: "safe (one_tunnel Times_Out)" by (simp add: safe_def one_tunnel_fields)
  with cleanup_empties [of "one_tunnel Times_Out" "''db''"] show ?thesis by simp
qed

section \<open>Rejection and the missing forward\<close>

lemma parse_not_ssh_iff:
  "parse_ssh_command command = Inl NotAnSshCommand \<longleftrightarrow> \<not> startswith (normalize command) ''ssh''"
  by (auto simp: parse_ssh_command_def Let_def split: option.splits prod.splits)

text \<open>
  C5, as the code has it. \<open>parse_ssh_command\<close> raises "Command must start with 'ssh'"
  exactly when the command has no token or its first token does not begin with the three
  characters \<open>ssh\<close>.
\<close>

theorem parse_rejects_by_prefix:
  "parse_ssh_command command = Inl NotAnSshCommand \<longleftrightarrow>
     (case py_split command of [] \<Rightarrow> True | t # ts \<Rightarrow> \<not> startswith t ''ssh'')"
proof (cases "py_split command")
  case Nil
  then show ?thesis by (simp add: parse_not_ssh_iff normalize_def)
next
  case (Cons t ts)
  then show ?thesis by (simp add: parse_not_ssh_iff normalize_def startswith_join del: join.simps)
qed

text \<open>C5 as stated fails: the first token \<open>sshd\<close> is accepted.\<close>

theorem sshd_accepted:
  "hd (py_split ''sshd -L 8080:localhost:80 alice@example.com'') = ''sshd'' \<and>
   parse_ssh_command ''sshd -L 8080:localhost:80 alice@example.com'' =
     Inr \<lparr>ttype = Local, ssh_port = ''22'', local_port = ''8080'', remote_host = ''localhost'',
          remote_port = ''80'', ssh_user = ''alice'', ssh_host = ''example.com'',
          name = ''example.com_L8080'', forwards = []\<rparr>"
  by code_simp

text \<open>
  C4, as the code has it. A command that begins with \<open>ssh\<close> and has no match of the
  \<open>-L\<close>, \<open>-R\<close> and \<open>-D\<close> patterns raises "Could not find user@host in command" when
  it has no \<open>user@host\<close> token; otherwise it is accepted as a local tunnel without
  forwards, with empty ports and the remote host \<open>localhost\<close>.
\<close>

theorem parse_without_forward:
  assumes "startswith (normalize command) ''ssh''"
    and "local_matches command = []" and "remote_matches command = []"
    and "dynamic_match command = None"
  shows "(user_host_match command = None \<longrightarrow> parse_ssh_command command = Inl MissingUserHost) \<and>
         (user_host_match command \<noteq> None \<longrightarrow>
            (\<exists>cfg. parse_ssh_command command = Inr cfg \<and> ttype cfg = Local \<and> forwards cfg = [] \<and>
                   local_port cfg = [] \<and> remote_host cfg = ''localhost'' \<and> remote_port cfg = [] \<and>
                   name cfg = ssh_host cfg @ ''_L''))"
  using assms
  by (auto simp: parse_ssh_command_def Let_def set_local_def set_remote_def set_dynamic_def
      set_port_def default_name_def default_config_def split: option.splits prod.splits)

theorem parse_without_forward_witness:
  "startswith (normalize ''ssh hello world'') ''ssh'' \<and> local_matches ''ssh hello world'' = [] \<and>
   remote_matches ''ssh hello world'' = [] \<and> dynamic_match ''ssh hello world'' = None \<and>
   user_host_match ''ssh hello world'' = None \<and>
   parse_ssh_command ''ssh hello world'' = Inl MissingUserHost"
proof -
  have h1: "startswith (normalize ''ssh hello world'') ''ssh''" by code_simp
  have h2: "local_matches ''ssh hello world'' = []" by code_simp
  have h3: "remote_matches ''ssh hello world'' = []" by code_simp
  have h4: "dynamic_match ''ssh hello world'' = None" by code_simp
  have h5: "user_host_match ''ssh hello world'' = None" by code_simp
  from parse_without_forward [OF h1 h2 h3 h4] h5
  have "parse_ssh_command ''ssh hello world'' = Inl MissingUserHost" by blast
  with h1 h2 h3 h4 h5 show ?thesis by blast
qed

text \<open>
  C4 as stated fails: \<open>ssh hello world\<close> raises the error of the missing
  \<open>user@host\<close>, and \<open>ssh alice@example.com\<close> is accepted.
\<close>

theorem no_forward_counterexample:
  "parse_ssh_command ''ssh hello world'' = Inl MissingUserHost \<and>
   parse_ssh_command ''ssh alice@example.com'' =
     Inr \<lparr>ttype = Local, ssh_port = ''22'', local_port = [], remote_host = ''localhost'',
          remote_port = [], ssh_user = ''alice'', ssh_host = ''example.com'',
          name = ''example.com_L'', forwards = []\<rparr>"
  by code_simp

section \<open>The argument vector and the exported text\<close>

lemma flags_concat:
  "concat (map (\<lambda>f. CHR '' '' # CHR ''-'' # c # CHR '' '' # g f) fs)
     = concat (map (\<lambda>x. CHR '' '' # x) (concat (map (\<lambda>f. [[CHR ''-'', c], g f]) fs)))"
  by (induction fs) simp_all

lemma export_flags_tokens:
  "export_flags cfg = concat (map (\<lambda>x. CHR '' '' # x) (start_flags cfg))"
  by (simp add: export_flags_def start_flags_def flags_concat split: tunnel_type.splits)

lemma export_join: "export_to_command cfg = join '' '' (export_tokens cfg)"
  by (simp add: export_to_command_def export_tokens_def join_space export_flags_tokens del: join.simps)

text \<open>
  C3, as the code has it. When every element of the argument vector is a token, the
  exported text splits into that vector if the port is not \<open>'22'\<close>, and into that
  vector without \<open>-p\<close> and \<open>22\<close> if it is; the vector always starts with \<open>ssh -N\<close>
  and always holds \<open>-p\<close> and the port before \<open>user@host\<close>.
\<close>

theorem start_cmd_vs_export:
  assumes "list_all clean (start_cmd cfg)"
  shows "py_split (export_to_command cfg) =
           (if ssh_port cfg = ''22''
            then [''ssh'', ''-N''] @ start_flags cfg @ [ssh_user cfg @ ''@'' @ ssh_host cfg]
            else start_cmd cfg) \<and>
         start_cmd cfg = [''ssh'', ''-N''] @ start_flags cfg @ [''-p'', ssh_port cfg, ssh_user cfg @ ''@'' @ ssh_host cfg]"
proof -
  from assms have "list_all clean (export_tokens cfg)"
    by (simp add: start_cmd_def export_tokens_def)
  then have "py_split (export_to_command cfg) = export_tokens cfg"
    unfolding export_join by (rule py_split_join)
  then show ?thesis by (simp add: export_tokens_def start_cmd_def)
qed

theorem start_cmd_vs_export_witness:
  "list_all clean (start_cmd spec_example) \<and>
   py_split (export_to_command spec_example) = [''ssh'', ''-N'', ''-L'', ''8080:localhost:80'', ''alice@example.com''] \<and>
   start_cmd spec_example = [''ssh'', ''-N'', ''-L'', ''8080:localhost:80'', ''-p'', ''22'', ''alice@example.com'']"
proof -
  have h: "list_all clean (start_cmd spec_example)" by code_simp
  have s: "start_flags spec_example = [''-L'', ''8080:localhost:80'']" by code_simp
  from start_cmd_vs_export [OF h] s h show ?thesis by (simp add: spec_example_def)
qed

text \<open>
  C3 as stated fails: with the port \<open>'22'\<close> the argument vector holds \<open>-p\<close> and the
  exported text does not.
\<close>

theorem port_flag_counterexample:
  "ssh_port spec_example = ''22'' \<and> ''-p'' \<in> set (start_cmd spec_example) \<and>
   ''-p'' \<notin> set (py_split (export_to_command spec_example))"
  by code_simp

section \<open>The batch import\<close>

text \<open>
  C8, as the code has it. The batch of the specification yields two configurations,
  named \<open>my-tunnel\<close> and \<open>h1_L9000\<close>: the name of the comment replaced the derived
  name of the first before it was recorded, so the second does not collide.
\<close>

theorem batch_example_names:
  "map name (tunnels_config (import_text [] spec_batch)) = [''my-tunnel'', ''h1_L9000''] \<and>
   imported_count (import_text [] spec_batch) = 2 \<and>
   failed_count (import_text [] spec_batch) = 0"
  by code_simp

text \<open>C8 as stated fails: the second name carries no suffix.\<close>

theorem batch_example_no_suffix:
  "name (tunnels_config (import_text [] spec_batch) ! 1) \<noteq> ''h1_L9000_1''"
  by code_simp

text \<open>
  C9 fails on the code at the flush after the loop. The block of \<open>ssh hello\<close> and
  \<open>world\<close> starts at line 1, and its error is recorded under line 2, the last line of
  the input.
\<close>

theorem final_flush_line:
  "command_start_line (import_text [] (''ssh hello'' @ [CHR 0x0A] @ ''world'')) = 1 \<and>
   error_messages (import_text [] (''ssh hello'' @ [CHR 0x0A] @ ''world'')) = [(2, MissingUserHost)]"
  by code_simp

section \<open>The matcher\<close>

lemma many_SomeD:
  "many P k acc s = Some res \<Longrightarrow>
     \<exists>m r. m \<noteq> [] \<and> list_all P m \<and> s = m @ r \<and> k (acc @ m) r = Some res"
proof (induction s arbitrary: acc)
  case Nil
  then show ?case by simp
next
  case (Cons c cs)
  then have c: "P c" by (simp split: if_splits)
  show ?case
  proof (cases "many P k (acc @ [c]) cs")
    case None
    with Cons.prems c have "k (acc @ [c]) cs = Some res" by simp
    with c show ?thesis by (intro exI [of _ "[c]"] exI [of _ cs]) simp
  next
    case (Some x)
    with Cons.prems c have "many P k (acc @ [c]) cs = Some res" by simp
    from Cons.IH [OF this] obtain m r where
      "m \<noteq> []" "list_all P m" "cs = m @ r" "k ((acc @ [c]) @ m) r = Some res" by blast
    with c show ?thesis by (intro exI [of _ "c # m"] exI [of _ r]) simp
  qed
qed

lemma few_SomeD:
  "few P k acc s = Some res \<Longrightarrow>
     \<exists>m r. m \<noteq> [] \<and> list_all P m \<and> s = m @ r \<and> k (acc @ m) r = Some res"
proof (induction s arbitrary: acc)
  case Nil
  then show ?case by simp
next
  case (Cons c cs)
  then have c: "P c" by (simp split: if_splits)
  show ?case
  proof (cases "k (acc @ [c]) cs")
    case (Some x)
    with Cons.prems c have "k (acc @ [c]) cs = Some res" by simp
    with c show ?thesis by (intro exI [of _ "[c]"] exI [of _ cs]) simp
  next
    case None
    with Cons.prems c have "few P k (acc @ [c]) cs = Some res" by simp
    from Cons.IH [OF this] obtain m r where
      "m \<noteq> []" "list_all P m" "cs = m @ r" "k ((acc @ [c]) @ m) r = Some res" by blast
    with c show ?thesis by (intro exI [of _ "c # m"] exI [of _ r]) simp
  qed
qed

text \<open>The longest run is tried first: when the rest of the pattern accepts it, it is the match.\<close>

lemma many_longest:
  assumes "m \<noteq> []" "list_all P m" "r = [] \<or> \<not> P (hd r)" "k (acc @ m) r = Some res"
  shows "many P k acc (m @ r) = Some res"
  using assms
proof (induction m arbitrary: acc)
  case Nil
  then show ?case by simp
next
  case (Cons c m)
  show ?case
  proof (cases "m = []")
    case True
    from Cons.prems(3) have "many P k (acc @ [c]) r = None" by (cases r) auto
    with Cons.prems True show ?thesis by simp
  next
    case False
    with Cons.prems have "many P k (acc @ [c]) (m @ r) = Some res"
      by (intro Cons.IH) simp_all
    with Cons.prems show ?thesis by simp
  qed
qed

text \<open>
  The shortest run is tried first: when the rest of the pattern refuses every input that
  goes on with a character of the class, the whole run is the match.
\<close>

lemma few_whole:
  assumes "m \<noteq> []" "list_all P m" "\<And>a x xs. P x \<Longrightarrow> k a (x # xs) = None"
    "k (acc @ m) r = Some res"
  shows "few P k acc (m @ r) = Some res"
  using assms(1,2,4)
proof (induction m arbitrary: acc)
  case Nil
  then show ?case by simp
next
  case (Cons c m)
  show ?case
  proof (cases m)
    case Nil
    with Cons.prems show ?thesis by simp
  next
    case (Cons x xs)
    with Cons.prems(2) have "k (acc @ [c]) (m @ r) = None" by (simp add: assms(3))
    moreover from Cons.prems Cons have "few P k (acc @ [c]) (m @ r) = Some res"
      by (intro Cons.IH) simp_all
    ultimately show ?thesis using Cons.prems by simp
  qed
qed

lemma capture_Some: "capture m res = Some x \<longleftrightarrow> (\<exists>gs r. res = Some (gs, r) \<and> x = (m # gs, r))"
  by (auto simp: capture_def split: option.splits)

lemma or_else_simps [simp]: "or_else None b = b" "or_else (Some x) b = Some x"
  by (simp_all add: or_else_def)

lemma capture_simps [simp]: "capture m None = None" "capture m (Some (gs, r)) = Some (m # gs, r)"
  by (simp_all add: capture_def)

text \<open>The matcher, atom by atom.\<close>

lemma rmatch_Ch:
  "rmatch (Ch c # as) b s = (case s of [] \<Rightarrow> None | x # xs \<Rightarrow> if x = c then rmatch as False xs else None)"
  by simp

lemma rmatch_Many: "rmatch (Many k # as) b s = many (in_cls k) (\<lambda>m r. rmatch as False r) [] s"
  by simp

lemma rmatch_Grp_Many:
  "rmatch (Grp_Many k # as) b s = many (in_cls k) (\<lambda>m r. capture m (rmatch as False r)) [] s"
  by simp

lemma rmatch_Grp_Few:
  "rmatch (Grp_Few k # as) b s = few (in_cls k) (\<lambda>m r. capture m (rmatch as False r)) [] s"
  by simp

lemma rmatch_Start_or_Space:
  "rmatch (Start_or_Space # as) b s =
     or_else (if b then rmatch as b s else None)
       (case s of [] \<Rightarrow> None | x # xs \<Rightarrow> if is_space x then rmatch as False xs else None)"
  by simp

lemma rmatch_Space_or_End:
  "rmatch (Space_or_End # as) b s =
     or_else (case s of [] \<Rightarrow> None | x # xs \<Rightarrow> if is_space x then rmatch as False xs else None)
       (if s = [] \<or> s = [CHR 0x0A] then rmatch as b s else None)"
  by simp

declare rmatch.simps(2) [simp del]

lemma rmatch_ChD:
  "rmatch (Ch c # as) b s = Some res \<Longrightarrow> \<exists>xs. s = c # xs \<and> rmatch as False xs = Some res"
  by (auto simp: rmatch_Ch split: list.splits if_splits)

lemma rmatch_ManyD:
  "rmatch (Many k # as) b s = Some res \<Longrightarrow>
     \<exists>m r. m \<noteq> [] \<and> list_all (in_cls k) m \<and> s = m @ r \<and> rmatch as False r = Some res"
  unfolding rmatch_Many by (drule many_SomeD) simp

lemma rmatch_Grp_ManyD:
  "rmatch (Grp_Many k # as) b s = Some (gs, r') \<Longrightarrow>
     \<exists>m r gs'. m \<noteq> [] \<and> list_all (in_cls k) m \<and> s = m @ r \<and>
        rmatch as False r = Some (gs', r') \<and> gs = m # gs'"
  unfolding rmatch_Grp_Many by (drule many_SomeD) (auto simp: capture_Some)

lemma rmatch_Grp_FewD:
  "rmatch (Grp_Few k # as) b s = Some (gs, r') \<Longrightarrow>
     \<exists>m r gs'. m \<noteq> [] \<and> list_all (in_cls k) m \<and> s = m @ r \<and>
        rmatch as False r = Some (gs', r') \<and> gs = m # gs'"
  unfolding rmatch_Grp_Few by (drule few_SomeD) (auto simp: capture_Some)

lemma rmatch_ChI: "rmatch as False xs = res \<Longrightarrow> rmatch (Ch c # as) b (c # xs) = res"
  by (simp add: rmatch_Ch)

lemma rmatch_ManyI:
  "m \<noteq> [] \<Longrightarrow> list_all (in_cls k) m \<Longrightarrow> r = [] \<or> \<not> in_cls k (hd r) \<Longrightarrow>
     rmatch as False r = Some res \<Longrightarrow> rmatch (Many k # as) b (m @ r) = Some res"
  unfolding rmatch_Many by (rule many_longest) simp_all

lemma rmatch_Grp_ManyI:
  "m \<noteq> [] \<Longrightarrow> list_all (in_cls k) m \<Longrightarrow> r = [] \<or> \<not> in_cls k (hd r) \<Longrightarrow>
     rmatch as False r = Some (gs, r') \<Longrightarrow> rmatch (Grp_Many k # as) b (m @ r) = Some (m # gs, r')"
  unfolding rmatch_Grp_Many by (rule many_longest) simp_all

lemma is_digit_not_space: "is_digit c \<Longrightarrow> \<not> is_space c"
  by (auto simp: is_digit_def is_space_def)

lemma char_facts [simp]: "\<not> is_digit CHR '':''" "\<not> is_digit CHR '' ''" "\<not> is_space CHR '':''"
  "\<not> is_space CHR ''@''" "\<not> is_space CHR ''-''" "\<not> is_digit CHR ''@''" "\<not> is_digit CHR ''-''"
  by (simp_all add: is_digit_def is_space_def)

lemma in_cls_eta [simp]: "in_cls Digit = is_digit" "in_cls Space = is_space"
  "in_cls NotColonSpace = (\<lambda>c. c \<noteq> CHR '':'' \<and> \<not> is_space c)"
  "in_cls NotSpaceAt = (\<lambda>c. \<not> is_space c \<and> c \<noteq> CHR ''@'')"
  "in_cls NotSpace = (\<lambda>c. \<not> is_space c)"
  by (simp_all add: fun_eq_iff)

text \<open>What a match of a forward pattern looks like.\<close>

lemma rmatch_forwardD:
  assumes "rmatch (rx_forward f) b s = Some (gs, r)"
  shows "\<exists>ws d1 h d2. s = CHR ''-'' # f # ws @ d1 @ CHR '':'' # h @ CHR '':'' # d2 @ r \<and>
           ws \<noteq> [] \<and> list_all is_space ws \<and> digits d1 \<and> host_text h \<and> digits d2 \<and> gs = [d1, h, d2]"
proof -
  from assms [unfolded rx_forward_def] obtain s0 where s0: "s = CHR ''-'' # s0"
    and 0: "rmatch [Ch f, Many Space, Grp_Many Digit, Ch CHR '':'', Grp_Many NotColonSpace,
      Ch CHR '':'', Grp_Many Digit] False s0 = Some (gs, r)"
    by (blast dest: rmatch_ChD)
  from 0 obtain s1 where s1: "s0 = f # s1"
    and 1: "rmatch [Many Space, Grp_Many Digit, Ch CHR '':'', Grp_Many NotColonSpace,
      Ch CHR '':'', Grp_Many Digit] False s1 = Some (gs, r)"
    by (blast dest: rmatch_ChD)
  from rmatch_ManyD [OF 1] obtain ws s2 where ws: "ws \<noteq> []" "list_all is_space ws" "s1 = ws @ s2"
    and 2: "rmatch [Grp_Many Digit, Ch CHR '':'', Grp_Many NotColonSpace,
      Ch CHR '':'', Grp_Many Digit] False s2 = Some (gs, r)"
    by auto
  from rmatch_Grp_ManyD [OF 2] obtain d1 s3 g3 where d1: "d1 \<noteq> []" "list_all is_digit d1" "s2 = d1 @ s3"
    "gs = d1 # g3"
    and 3: "rmatch [Ch CHR '':'', Grp_Many NotColonSpace, Ch CHR '':'', Grp_Many Digit] False s3 = Some (g3, r)"
    by auto
  from rmatch_ChD [OF 3] obtain s4 where s4: "s3 = CHR '':'' # s4"
    and 4: "rmatch [Grp_Many NotColonSpace, Ch CHR '':'', Grp_Many Digit] False s4 = Some (g3, r)"
    by auto
  from rmatch_Grp_ManyD [OF 4] obtain h s5 g5 where h: "h \<noteq> []"
    "list_all (\<lambda>c. c \<noteq> CHR '':'' \<and> \<not> is_space c) h" "s4 = h @ s5" "g3 = h # g5"
    and 5: "rmatch [Ch CHR '':'', Grp_Many Digit] False s5 = Some (g5, r)"
    by auto
  from rmatch_ChD [OF 5] obtain s6 where s6: "s5 = CHR '':'' # s6"
    and 6: "rmatch [Grp_Many Digit] False s6 = Some (g5, r)"
    by auto
  from rmatch_Grp_ManyD [OF 6] obtain d2 s7 where d2: "d2 \<noteq> []" "list_all is_digit d2" "s6 = d2 @ s7"
    "g5 = [d2]" "s7 = r"
    by auto
  with s0 s1 ws d1 s4 h s6 show ?thesis
    by (auto simp: digits_def host_text_def)
qed

lemma rmatch_optionD:
  assumes "rmatch (rx_option f) b s = Some (gs, r)"
  shows "\<exists>ws d. s = CHR ''-'' # f # ws @ d @ r \<and> ws \<noteq> [] \<and> list_all is_space ws \<and> digits d \<and> gs = [d]"
proof -
  from assms [unfolded rx_option_def] obtain s0 where s0: "s = CHR ''-'' # s0"
    and 0: "rmatch [Ch f, Many Space, Grp_Many Digit] False s0 = Some (gs, r)"
    by (blast dest: rmatch_ChD)
  from 0 obtain s1 where s1: "s0 = f # s1"
    and 1: "rmatch [Many Space, Grp_Many Digit] False s1 = Some (gs, r)"
    by (blast dest: rmatch_ChD)
  from rmatch_ManyD [OF 1] obtain ws s2 where ws: "ws \<noteq> []" "list_all is_space ws" "s1 = ws @ s2"
    and 2: "rmatch [Grp_Many Digit] False s2 = Some (gs, r)"
    by auto
  from rmatch_Grp_ManyD [OF 2] obtain d s3 where d: "d \<noteq> []" "list_all is_digit d" "s2 = d @ s3"
    "gs = [d]" "s3 = r"
    by auto
  with s0 s1 ws show ?thesis by (auto simp: digits_def)
qed

text \<open>A forward flag followed by a valid triple is matched.\<close>

lemma rmatch_forwardI:
  assumes "digits d1" "host_text h" "digits d2" "r = [] \<or> \<not> is_digit (hd r)"
  shows "rmatch (rx_forward f) b (CHR ''-'' # f # CHR '' '' # d1 @ CHR '':'' # h @ CHR '':'' # d2 @ r)
           = Some ([d1, h, d2], r)"
proof -
  have 6: "rmatch [Grp_Many Digit] False (d2 @ r) = Some ([d2], r)"
    using assms by (intro rmatch_Grp_ManyI) (simp_all add: digits_def)
  have 5: "rmatch [Ch CHR '':'', Grp_Many Digit] False (CHR '':'' # d2 @ r) = Some ([d2], r)"
    by (rule rmatch_ChI) (rule 6)
  have 4: "rmatch [Grp_Many NotColonSpace, Ch CHR '':'', Grp_Many Digit] False (h @ CHR '':'' # d2 @ r)
      = Some ([h, d2], r)"
    using assms 5 by (intro rmatch_Grp_ManyI) (simp_all add: host_text_def)
  have 3: "rmatch [Ch CHR '':'', Grp_Many NotColonSpace, Ch CHR '':'', Grp_Many Digit] False
      (CHR '':'' # h @ CHR '':'' # d2 @ r) = Some ([h, d2], r)"
    by (rule rmatch_ChI) (rule 4)
  have 2: "rmatch [Grp_Many Digit, Ch CHR '':'', Grp_Many NotColonSpace, Ch CHR '':'', Grp_Many Digit] False
      (d1 @ CHR '':'' # h @ CHR '':'' # d2 @ r) = Some ([d1, h, d2], r)"
    using assms 3 by (intro rmatch_Grp_ManyI) (simp_all add: digits_def)
  from assms have nd: "\<not> is_space (hd (d1 @ CHR '':'' # h @ CHR '':'' # d2 @ r))"
    by (cases d1) (auto simp: digits_def dest: is_digit_not_space)
  have 1: "rmatch [Many Space, Grp_Many Digit, Ch CHR '':'', Grp_Many NotColonSpace, Ch CHR '':'', Grp_Many Digit]
      False ([CHR '' ''] @ d1 @ CHR '':'' # h @ CHR '':'' # d2 @ r) = Some ([d1, h, d2], r)"
    using nd 2 by (intro rmatch_ManyI) simp_all
  show ?thesis unfolding rx_forward_def
    by (rule rmatch_ChI, rule rmatch_ChI) (use 1 in simp)
qed

lemma rmatch_optionI:
  assumes "digits d" "r = [] \<or> \<not> is_digit (hd r)"
  shows "rmatch (rx_option f) b (CHR ''-'' # f # CHR '' '' # d @ r) = Some ([d], r)"
proof -
  have 2: "rmatch [Grp_Many Digit] False (d @ r) = Some ([d], r)"
    using assms by (intro rmatch_Grp_ManyI) (simp_all add: digits_def)
  from assms have nd: "\<not> is_space (hd (d @ r))"
    by (cases d) (auto simp: digits_def dest: is_digit_not_space)
  have 1: "rmatch [Many Space, Grp_Many Digit] False ([CHR '' ''] @ d @ r) = Some ([d], r)"
    using nd 2 by (intro rmatch_ManyI) simp_all
  show ?thesis unfolding rx_option_def
    by (rule rmatch_ChI, rule rmatch_ChI) (use 1 in simp)
qed

section \<open>Searching\<close>

lemma search_SomeD:
  "search rx b s = Some res \<Longrightarrow> \<exists>p s' b'. s = p @ s' \<and> rmatch rx b' s' = Some res"
proof (induction s arbitrary: b)
  case Nil
  then show ?case by auto
next
  case (Cons x xs)
  show ?case
  proof (cases "rmatch rx b (x # xs)")
    case (Some y)
    with Cons.prems have "rmatch rx b (x # xs) = Some res" by simp
    then have "x # xs = [] @ (x # xs) \<and> rmatch rx b (x # xs) = Some res" by simp
    then show ?thesis by blast
  next
    case None
    with Cons.prems have "search rx False xs = Some res" by simp
    from Cons.IH [OF this] obtain p s' b' where "xs = p @ s'" "rmatch rx b' s' = Some res" by blast
    then have "x # xs = (x # p) @ s' \<and> rmatch rx b' s' = Some res" by simp
    then show ?thesis by blast
  qed
qed

lemma search_hit: "rmatch rx b s = Some res \<Longrightarrow> search rx b s = Some res"
  by (cases s) simp_all

lemma search_miss: "rmatch rx b (x # xs) = None \<Longrightarrow> search rx b (x # xs) = search rx False xs"
  by simp

lemma flag_pattern_forward: "flag_pattern (rx_forward f) f"
  unfolding flag_pattern_def
proof (intro conjI allI impI)
  fix b s gs r
  assume "rmatch (rx_forward f) b s = Some (gs, r)"
  from rmatch_forwardD [OF this] obtain ws d1 h d2 where
    s: "s = CHR ''-'' # f # ws @ d1 @ CHR '':'' # h @ CHR '':'' # d2 @ r" and ws: "ws \<noteq> []" "list_all is_space ws"
    by blast
  from ws obtain w ws' where "ws = w # ws'" "is_space w" by (cases ws) auto
  with s show "\<exists>w s'. s = CHR ''-'' # f # w # s' \<and> is_space w" by auto
  from s show "length r < length s" by simp
next
  fix b s
  show "rmatch (rx_forward f) b s = rmatch (rx_forward f) False s"
    by (simp add: rx_forward_def rmatch_Ch)
qed

lemma flag_pattern_option: "flag_pattern (rx_option f) f"
  unfolding flag_pattern_def
proof (intro conjI allI impI)
  fix b s gs r
  assume "rmatch (rx_option f) b s = Some (gs, r)"
  from rmatch_optionD [OF this] obtain ws d where
    s: "s = CHR ''-'' # f # ws @ d @ r" and ws: "ws \<noteq> []" "list_all is_space ws"
    by blast
  from ws obtain w ws' where "ws = w # ws'" "is_space w" by (cases ws) auto
  with s show "\<exists>w s'. s = CHR ''-'' # f # w # s' \<and> is_space w" by auto
  from s show "length r < length s" by simp
next
  fix b s
  show "rmatch (rx_option f) b s = rmatch (rx_option f) False s"
    by (simp add: rx_option_def rmatch_Ch)
qed

lemma flag_patternD:
  assumes "flag_pattern rx f" "rmatch rx b s = Some (gs, r)"
  shows "\<exists>w s'. s = CHR ''-'' # f # w # s' \<and> is_space w" and "length r < length s"
  using assms unfolding flag_pattern_def by blast+

lemma flag_pattern_b: "flag_pattern rx f \<Longrightarrow> rmatch rx b s = rmatch rx False s"
  unfolding flag_pattern_def by blast

lemma flag_search_b:
  assumes "flag_pattern rx f" shows "search rx b s = search rx False s"
proof (cases s)
  case Nil
  then show ?thesis using flag_pattern_b [OF assms, of b "[]"] by simp
next
  case (Cons x xs)
  then show ?thesis using flag_pattern_b [OF assms, of b "x # xs"] by simp
qed

lemma flag_progress:
  assumes "flag_pattern rx f" "search rx b s = Some (gs, r)"
  shows "length r < length s"
proof -
  from search_SomeD [OF assms(2)] obtain p s' b' where "s = p @ s'" "rmatch rx b' s' = Some (gs, r)"
    by blast
  with flag_patternD(2) [OF assms(1), of b' s' gs r] show ?thesis by simp
qed

lemma flag_findall:
  assumes "flag_pattern rx f"
  shows "findall rx b s = (case search rx b s of None \<Rightarrow> [] | Some (gs, r) \<Rightarrow> gs # findall rx False r)"
  using flag_progress [OF assms, of b s]
  by (subst findall.simps) (auto split: option.splits)

text \<open>A token is passed over unless it ends with the flag.\<close>

lemma flag_skip_token:
  assumes fp: "flag_pattern rx f" and f: "f \<noteq> CHR '' ''"
    and r: "r = [] \<or> hd r = CHR '' ''"
  shows "plain f t \<Longrightarrow> search rx b (t @ r) = search rx False r"
proof (induction t arbitrary: b)
  case Nil
  then show ?case using flag_search_b [OF fp] by simp
next
  case (Cons x t)
  then have ns: "\<not> is_space x" "list_all (\<lambda>c. \<not> is_space c) t" and nsf: "\<not> suffix [CHR ''-'', f] (x # t)"
    by (simp_all add: plain_def)
  from nsf have "\<not> suffix [CHR ''-'', f] t" by (auto simp: suffix_Cons)
  with ns have pt: "plain f t" by (simp add: plain_def)
  have "rmatch rx b (x # t @ r) = None"
  proof (rule ccontr)
    assume "rmatch rx b (x # t @ r) \<noteq> None"
    then obtain gs r' where "rmatch rx b (x # t @ r) = Some (gs, r')" by auto
    from flag_patternD(1) [OF fp this] obtain w s' where e: "x # t @ r = CHR ''-'' # f # w # s'" and w: "is_space w"
      by blast
    show False
    proof (cases t)
      case Nil
      with e r f show ?thesis by (cases r) auto
    next
      case (Cons y t')
      note t = this
      show ?thesis
      proof (cases t')
        case Nil
        with t e nsf show ?thesis by (simp add: suffix_def)
      next
        case (Cons z t'')
        with t e w ns show ?thesis by simp
      qed
    qed
  qed
  then have "search rx b ((x # t) @ r) = search rx False (t @ r)" by simp
  with Cons.IH [OF pt] show ?case by simp
qed

lemma flag_skip_blank:
  assumes fp: "flag_pattern rx f"
  shows "search rx b (CHR '' '' # s) = search rx False s"
proof -
  have "rmatch rx b (CHR '' '' # s) = None"
  proof (rule ccontr)
    assume "rmatch rx b (CHR '' '' # s) \<noteq> None"
    then obtain gs r' where "rmatch rx b (CHR '' '' # s) = Some (gs, r')" by auto
    from flag_patternD(1) [OF fp this] show False by simp
  qed
  then show ?thesis by simp
qed

lemma sp_hd: "sp ts @ r = [] \<or> hd (sp ts @ r) = CHR '' ''" if "r = [] \<or> hd r = CHR '' ''"
  using that by (cases ts) auto

lemma flag_skip_tokens:
  assumes fp: "flag_pattern rx f" and f: "f \<noteq> CHR '' ''"
    and r: "r = [] \<or> hd r = CHR '' ''"
  shows "list_all (plain f) ts \<Longrightarrow> search rx b (sp ts @ r) = search rx False r"
proof (induction ts arbitrary: b)
  case Nil
  then show ?case using flag_search_b [OF fp] by simp
next
  case (Cons t ts)
  have "search rx b (CHR '' '' # t @ sp ts @ r) = search rx False (t @ sp ts @ r)"
    by (rule flag_skip_blank [OF fp])
  also have "\<dots> = search rx False (sp ts @ r)"
    using Cons.prems by (intro flag_skip_token [OF fp f sp_hd [OF r]]) simp
  also have "\<dots> = search rx False r" using Cons.prems by (intro Cons.IH) simp
  finally show ?case by simp
qed

text \<open>The last token: no whitespace follows it, so no flag pattern matches in it.\<close>

lemma flag_last_token:
  assumes fp: "flag_pattern rx f"
  shows "list_all (\<lambda>c. \<not> is_space c) t \<Longrightarrow> search rx b t = None"
proof (induction t arbitrary: b)
  case Nil
  show ?case
  proof (rule ccontr)
    assume "search rx b [] \<noteq> None"
    then obtain gs r' where "rmatch rx b [] = Some (gs, r')" by auto
    from flag_patternD(1) [OF fp this] show False by simp
  qed
next
  case (Cons x t)
  have "rmatch rx b (x # t) = None"
  proof (rule ccontr)
    assume "rmatch rx b (x # t) \<noteq> None"
    then obtain gs r' where "rmatch rx b (x # t) = Some (gs, r')" by auto
    from flag_patternD(1) [OF fp this] obtain w s' where "x # t = CHR ''-'' # f # w # s'" "is_space w"
      by blast
    with Cons.prems show False by auto
  qed
  with Cons show ?case by simp
qed

section \<open>The pattern of user@host\<close>

lemma rx_user_host_split: "rx_user_host = Start_or_Space # rx_at_host"
  by (simp add: rx_user_host_def rx_at_host_def)

lemma rmatch_at_host_b: "rmatch rx_at_host b s = rmatch rx_at_host False s"
  by (simp add: rx_at_host_def rmatch_Grp_Many)

lemma rmatch_endD: "rmatch [Space_or_End] b s = Some (gs, r) \<Longrightarrow> gs = []"
  by (auto simp: rmatch_Space_or_End or_else_def split: option.splits list.splits if_splits)

lemma rmatch_at_hostD:
  assumes "rmatch rx_at_host b s = Some (gs, r)"
  shows "\<exists>u h s'. s = u @ CHR ''@'' # h @ s' \<and> user_text u \<and> clean h \<and> gs = [u, h]"
proof -
  from rmatch_Grp_ManyD [OF assms [unfolded rx_at_host_def]] obtain u s1 g1 where
    u: "u \<noteq> []" "list_all (\<lambda>c. \<not> is_space c \<and> c \<noteq> CHR ''@'') u" "s = u @ s1" "gs = u # g1"
    and 1: "rmatch [Ch CHR ''@'', Grp_Few NotSpace, Space_or_End] False s1 = Some (g1, r)"
    by auto
  from rmatch_ChD [OF 1] obtain s2 where s2: "s1 = CHR ''@'' # s2"
    and 2: "rmatch [Grp_Few NotSpace, Space_or_End] False s2 = Some (g1, r)"
    by auto
  from rmatch_Grp_FewD [OF 2] obtain h s3 g3 where
    h: "h \<noteq> []" "list_all (\<lambda>c. \<not> is_space c) h" "s2 = h @ s3" "g1 = h # g3"
    and 3: "rmatch [Space_or_End] False s3 = Some (g3, r)"
    by auto
  from rmatch_endD [OF 3] have "g3 = []" .
  with u s2 h show ?thesis by (auto simp: user_text_def clean_def)
qed

lemma rmatch_user_hostD:
  assumes "rmatch rx_user_host b s = Some (gs, r)"
  shows "\<exists>u h. user_text u \<and> clean h \<and> gs = [u, h]"
proof -
  from assms have "(\<exists>b' s'. rmatch rx_at_host b' s' = Some (gs, r))"
    unfolding rx_user_host_split rmatch_Start_or_Space
    by (auto simp: or_else_def split: option.splits list.splits if_splits)
  then show ?thesis by (blast dest: rmatch_at_hostD)
qed

text \<open>A token without \<open>@\<close> is not the start of a match.\<close>

lemma rmatch_at_host_none:
  assumes t: "list_all (\<lambda>c. \<not> is_space c) t" "CHR ''@'' \<notin> set t" and r: "r = [] \<or> hd r = CHR '' ''"
  shows "rmatch rx_at_host b (t @ r) = None"
proof (rule ccontr)
  assume "rmatch rx_at_host b (t @ r) \<noteq> None"
  then obtain gs r' where "rmatch rx_at_host b (t @ r) = Some (gs, r')" by auto
  from rmatch_at_hostD [OF this] obtain u h s' where
    e: "t @ r = u @ (CHR ''@'' # h @ s')" and u: "user_text u" by auto
  from u have uns: "\<And>x. x \<in> set u \<Longrightarrow> \<not> is_space x"
    by (simp add: user_text_def list_all_iff)
  from e [unfolded append_eq_append_conv2] obtain us where
    "(t = u @ us \<and> us @ r = CHR ''@'' # h @ s') \<or> (t @ us = u \<and> r = us @ CHR ''@'' # h @ s')"
    by blast
  then show False
  proof (elim disjE conjE)
    assume a1: "t = u @ us" and a2: "us @ r = CHR ''@'' # h @ s'"
    show False
    proof (cases us)
      case Nil
      with a2 have "r = CHR ''@'' # h @ s'" by simp
      with r show ?thesis by simp
    next
      case (Cons x xs)
      with a2 have "x = CHR ''@''" by simp
      with a1 Cons have "CHR ''@'' \<in> set t" by simp
      with t show ?thesis by simp
    qed
  next
    assume a1: "t @ us = u" and a2: "r = us @ CHR ''@'' # h @ s'"
    show False
    proof (cases us)
      case Nil
      with a2 have "r = CHR ''@'' # h @ s'" by simp
      with r show ?thesis by simp
    next
      case (Cons x xs)
      with a2 have "r = x # xs @ CHR ''@'' # h @ s'" by simp
      with r have "x = CHR '' ''" by simp
      moreover from a1 Cons have "x \<in> set u" by auto
      ultimately show ?thesis using uns [of x] by simp
    qed
  qed
qed

lemma rmatch_at_host_blank: "rmatch rx_at_host b (CHR '' '' # s) = None"
  by (simp add: rx_at_host_def rmatch_Grp_Many)

lemma user_host_inside: "\<not> is_space x \<Longrightarrow> rmatch rx_user_host False (x # xs) = None"
  by (simp add: rx_user_host_split rmatch_Start_or_Space)

lemma user_host_skip_chars:
  "list_all (\<lambda>c. \<not> is_space c) t \<Longrightarrow> search rx_user_host False (t @ r) = search rx_user_host False r"
  by (induction t) (simp_all add: user_host_inside)

lemma user_host_skip_first:
  assumes t: "list_all (\<lambda>c. \<not> is_space c) t" "CHR ''@'' \<notin> set t" "t \<noteq> []"
    and r: "r = [] \<or> hd r = CHR '' ''"
  shows "search rx_user_host True (t @ r) = search rx_user_host False r"
proof -
  from t obtain x t' where x: "t = x # t'" "\<not> is_space x" "list_all (\<lambda>c. \<not> is_space c) t'"
    by (cases t) auto
  have "rmatch rx_at_host True (t @ r) = None" using t r by (intro rmatch_at_host_none)
  with x have "rmatch rx_user_host True (x # t' @ r) = None"
    by (simp add: rx_user_host_split rmatch_Start_or_Space)
  then have "search rx_user_host True (t @ r) = search rx_user_host False (t' @ r)"
    using x by simp
  with x show ?thesis by (simp add: user_host_skip_chars)
qed

lemma user_host_skip_token:
  assumes t: "list_all (\<lambda>c. \<not> is_space c) t" "CHR ''@'' \<notin> set t"
    and r: "r = [] \<or> hd r = CHR '' ''"
  shows "search rx_user_host b (CHR '' '' # t @ r) = search rx_user_host False r"
proof -
  have "rmatch rx_at_host False (t @ r) = None" using t r by (intro rmatch_at_host_none)
  then have "rmatch rx_user_host b (CHR '' '' # t @ r) = None"
    by (simp add: rx_user_host_split rmatch_Start_or_Space rmatch_at_host_blank)
  then have "search rx_user_host b (CHR '' '' # t @ r) = search rx_user_host False (t @ r)"
    by simp
  with t show ?thesis by (simp add: user_host_skip_chars)
qed

lemma user_host_skip_tokens:
  assumes r: "r = [] \<or> hd r = CHR '' ''"
  shows "list_all (\<lambda>t. list_all (\<lambda>c. \<not> is_space c) t \<and> CHR ''@'' \<notin> set t) (t # ts) \<Longrightarrow>
    search rx_user_host b (sp (t # ts) @ r) = search rx_user_host False r"
proof (induction ts arbitrary: t b)
  case Nil
  then show ?case using user_host_skip_token [OF _ _ r, of t b] by simp
next
  case (Cons u ts)
  have "search rx_user_host b (CHR '' '' # t @ sp (u # ts) @ r) = search rx_user_host False (sp (u # ts) @ r)"
    using Cons.prems by (intro user_host_skip_token sp_hd [OF r]) simp_all
  also have "\<dots> = search rx_user_host False r" using Cons.prems by (intro Cons.IH) simp
  finally show ?case by simp
qed

text \<open>The last token \<open>user@host\<close> is matched.\<close>

lemma is_space_newline: "is_space CHR 0x0A"
  by (simp add: is_space_def)

lemma rmatch_end_none: "\<not> is_space x \<Longrightarrow> rmatch [Space_or_End] b (x # xs) = None"
  using is_space_newline by (auto simp: rmatch_Space_or_End)

lemma rmatch_end_empty: "rmatch [Space_or_End] b [] = Some ([], [])"
  by (simp add: rmatch_Space_or_End)

lemma user_host_match_last:
  assumes "user_text u" "clean h"
  shows "rmatch rx_user_host b (CHR '' '' # u @ CHR ''@'' # h) = Some ([u, h], [])"
proof -
  have "few (\<lambda>c. \<not> is_space c) (\<lambda>m r. capture m (rmatch [Space_or_End] False r)) [] (h @ []) = Some ([h], [])"
  proof (rule few_whole)
    show "h \<noteq> []" "list_all (\<lambda>c. \<not> is_space c) h" using assms(2) by (simp_all add: clean_def)
    show "capture a (rmatch [Space_or_End] False (x # xs)) = None" if "\<not> is_space x" for a x xs
      using that by (simp add: rmatch_end_none)
    show "capture ([] @ h) (rmatch [Space_or_End] False []) = Some ([h], [])"
      by (simp add: rmatch_end_empty)
  qed
  then have 3: "rmatch [Grp_Few NotSpace, Space_or_End] False h = Some ([h], [])"
    by (simp add: rmatch_Grp_Few)
  have 2: "rmatch [Ch CHR ''@'', Grp_Few NotSpace, Space_or_End] False (CHR ''@'' # h) = Some ([h], [])"
    by (rule rmatch_ChI) (rule 3)
  have 1: "rmatch rx_at_host False (u @ CHR ''@'' # h) = Some ([u, h], [])"
    unfolding rx_at_host_def using assms(1) 2 by (intro rmatch_Grp_ManyI) (simp_all add: user_text_def)
  then show ?thesis
    by (simp add: rx_user_host_split rmatch_Start_or_Space rmatch_at_host_blank)
qed

section \<open>The resolution of the type\<close>

lemma export_flags_read:
  "export_flags cfg =
     (case ttype cfg of
        Local \<Rightarrow> concat (map (\<lambda>f. '' -L '' @ triple (fw_local_port f) (fw_remote_host f) (fw_remote_port f))
                   (read_forwards cfg))
      | Remote \<Rightarrow> concat (map (\<lambda>f. '' -R '' @ triple (fw_remote_port f) (fw_remote_host f) (fw_local_port f))
                   (read_forwards cfg))
      | Dynamic \<Rightarrow> '' -D '' @ local_port cfg)"
  by (simp add: export_flags_def read_forwards_def legacy_forward_def split: tunnel_type.splits)

lemma start_flags_read:
  "start_flags cfg =
     (case ttype cfg of
        Local \<Rightarrow> concat (map (\<lambda>f. [''-L'', triple (fw_local_port f) (fw_remote_host f) (fw_remote_port f)])
                   (read_forwards cfg))
      | Remote \<Rightarrow> concat (map (\<lambda>f. [''-R'', triple (fw_remote_port f) (fw_remote_host f) (fw_local_port f)])
                   (read_forwards cfg))
      | Dynamic \<Rightarrow> [''-D'', local_port cfg])"
  by (simp add: start_flags_def read_forwards_def legacy_forward_def split: tunnel_type.splits)

lemma parse_InrD:
  assumes "parse_ssh_command command = Inr cfg"
  shows "\<exists>gs r c. user_host_match command = Some (gs, r) \<and>
           c = (matched (local_matches command) (remote_matches command) (dynamic_match command)
                  (port_match command))\<lparr>ssh_user := gs ! 0, ssh_host := gs ! 1\<rparr> \<and>
           cfg = c\<lparr>name := default_name c\<rparr> \<and> startswith (normalize command) ''ssh''"
  using assms
  by (auto simp: parse_ssh_command_def Let_def matched_def split: if_splits option.splits prod.splits)

lemma matched_ttype:
  "ttype (matched lm rm dm pm) =
     (if dm \<noteq> None then Dynamic else if rm \<noteq> [] then Remote else Local)"
  by (auto simp: matched_def set_port_def set_dynamic_def set_remote_def set_local_def default_config_def
      split: option.splits prod.splits)

lemma matched_forwards:
  "forwards (matched lm rm dm pm) =
     (if 2 \<le> length rm then map remote_forward rm
      else if 2 \<le> length lm then map local_forward lm else [])"
proof -
  have "length lm \<noteq> Suc 0 \<Longrightarrow> lm \<noteq> [] \<Longrightarrow> 2 \<le> length lm" for lm :: "string list list"
    by (cases lm) (auto simp: Suc_le_eq)
  then show ?thesis
    by (auto simp: matched_def set_port_def set_dynamic_def set_remote_def set_local_def default_config_def
      split: option.splits prod.splits)
qed

lemma matched_legacy:
  "legacy_forward (matched lm rm dm pm) =
     \<lparr>fw_local_port =
        (case dm of Some (gs, r) \<Rightarrow> gs ! 0
         | None \<Rightarrow> if length rm = 1 then hd rm ! 2 else if lm \<noteq> [] then hd lm ! 0 else []),
      fw_remote_host =
        (if length rm = 1 then hd rm ! 1 else if length lm = 1 then hd lm ! 1 else ''localhost''),
      fw_remote_port =
        (if rm \<noteq> [] then hd rm ! 0 else if length lm = 1 then hd lm ! 2 else [])\<rparr>"
  by (auto simp: matched_def legacy_forward_def set_port_def set_dynamic_def set_remote_def set_local_def
      default_config_def split: option.splits prod.splits)

lemma matched_port:
  "ssh_port (matched lm rm dm pm) = (case pm of Some (gs, r) \<Rightarrow> gs ! 0 | None \<Rightarrow> ''22'')"
  by (auto simp: matched_def set_port_def set_dynamic_def set_remote_def set_local_def default_config_def
      split: option.splits prod.splits)

text \<open>
  C1, as the code has it. For every accepted command: with a \<open>-D\<close> match the type is
  dynamic, the port of the first \<open>-D\<close> match is the listen port, and the export and
  the argument vector carry the \<open>-D\<close> flag alone. Else with an \<open>-R\<close> match the type is
  remote, and unless a single \<open>-R\<close> match comes with two or more \<open>-L\<close> matches the
  forwards read are exactly the \<open>-R\<close> matches in order. Else with an \<open>-L\<close> match the
  type is local and the forwards read are exactly the \<open>-L\<close> matches in order.
\<close>

theorem type_resolution:
  assumes "parse_ssh_command command = Inr cfg"
  shows "(\<forall>gs r. dynamic_match command = Some (gs, r) \<longrightarrow>
            ttype cfg = Dynamic \<and> local_port cfg = gs ! 0 \<and>
            export_flags cfg = '' -D '' @ gs ! 0 \<and> start_flags cfg = [''-D'', gs ! 0]) \<and>
         (dynamic_match command = None \<and> remote_matches command \<noteq> [] \<longrightarrow>
            ttype cfg = Remote \<and>
            (length (local_matches command) < 2 \<or> 2 \<le> length (remote_matches command) \<longrightarrow>
               read_forwards cfg = map remote_forward (remote_matches command))) \<and>
         (dynamic_match command = None \<and> remote_matches command = [] \<and> local_matches command \<noteq> [] \<longrightarrow>
            ttype cfg = Local \<and> read_forwards cfg = map local_forward (local_matches command))"
proof -
  let ?lm = "local_matches command" and ?rm = "remote_matches command"
  let ?dm = "dynamic_match command" and ?pm = "port_match command"
  let ?m = "matched ?lm ?rm ?dm ?pm"
  from parse_InrD [OF assms] obtain gs c where
    c: "c = ?m\<lparr>ssh_user := gs ! 0, ssh_host := gs ! 1\<rparr>" and cfg: "cfg = c\<lparr>name := default_name c\<rparr>"
    by blast
  have ty: "ttype cfg = ttype ?m" and fw: "forwards cfg = forwards ?m"
    and lg: "legacy_forward cfg = legacy_forward ?m" and lp: "local_port cfg = fw_local_port (legacy_forward ?m)"
    by (simp_all add: c cfg legacy_forward_def)
  have one: "length ms < 2 \<Longrightarrow> ms \<noteq> [] \<Longrightarrow> length ms = 1 \<and> ms = [hd ms]" for ms :: "string list list"
    by (cases ms) auto
  show ?thesis
  proof (intro conjI allI impI)
    fix gs' r' assume d: "?dm = Some (gs', r')"
    then show "ttype cfg = Dynamic" by (simp add: ty matched_ttype)
    from d show p: "local_port cfg = gs' ! 0" by (simp add: lp matched_legacy)
    from d p show "export_flags cfg = '' -D '' @ gs' ! 0" "start_flags cfg = [''-D'', gs' ! 0]"
      by (simp_all add: export_flags_def start_flags_def ty matched_ttype)
  next
    assume a: "?dm = None \<and> ?rm \<noteq> []"
    then show "ttype cfg = Remote" by (simp add: ty matched_ttype)
    assume b: "length ?lm < 2 \<or> 2 \<le> length ?rm"
    show "read_forwards cfg = map remote_forward ?rm"
    proof (cases "2 \<le> length ?rm")
      case True
      then show ?thesis by (auto simp: read_forwards_def fw matched_forwards)
    next
      case False
      with a one [of ?rm] have 1: "length ?rm = 1" "?rm = [hd ?rm]" by auto
      from False b have "length ?lm < 2" by simp
      with 1 a have "forwards cfg = []" by (simp add: fw matched_forwards)
      moreover have "legacy_forward cfg = remote_forward (hd ?rm)"
        using 1 a by (simp add: lg matched_legacy remote_forward_def)
      ultimately show ?thesis using 1 by (metis list.simps(8,9) read_forwards_def)
    qed
  next
    assume a: "?dm = None \<and> ?rm = [] \<and> ?lm \<noteq> []"
    then show "ttype cfg = Local" by (simp add: ty matched_ttype)
    show "read_forwards cfg = map local_forward ?lm"
    proof (cases "2 \<le> length ?lm")
      case True
      with a show ?thesis by (auto simp: read_forwards_def fw matched_forwards)
    next
      case False
      with a one [of ?lm] have 1: "length ?lm = 1" "?lm = [hd ?lm]" by auto
      with a have "forwards cfg = []" by (simp add: fw matched_forwards)
      moreover have "legacy_forward cfg = local_forward (hd ?lm)"
        using 1 a by (simp add: lg matched_legacy local_forward_def)
      ultimately show ?thesis using 1 by (metis list.simps(8,9) read_forwards_def)
    qed
  qed
qed

theorem type_resolution_witness:
  "parse_ssh_command ''ssh -D 1080 carol@jump.host'' =
     Inr \<lparr>ttype = Dynamic, ssh_port = ''22'', local_port = ''1080'', remote_host = ''localhost'',
          remote_port = [], ssh_user = ''carol'', ssh_host = ''jump.host'', name = ''jump.host_D1080'',
          forwards = []\<rparr> \<and>
   dynamic_match ''ssh -D 1080 carol@jump.host'' = Some ([''1080''], '' carol@jump.host'') \<and>
   parse_ssh_command ''ssh -L 27017:mongo-0:27017 -L 27018:mongo-1:27017 -p 4022 bob@db.internal''
     = Inr two_forwards \<and>
   dynamic_match ''ssh -L 27017:mongo-0:27017 -L 27018:mongo-1:27017 -p 4022 bob@db.internal'' = None \<and>
   remote_matches ''ssh -L 27017:mongo-0:27017 -L 27018:mongo-1:27017 -p 4022 bob@db.internal'' = [] \<and>
   local_matches ''ssh -L 27017:mongo-0:27017 -L 27018:mongo-1:27017 -p 4022 bob@db.internal''
     = [[''27017'', ''mongo-0'', ''27017''], [''27018'', ''mongo-1'', ''27017'']] \<and>
   ttype two_forwards = Local \<and>
   read_forwards two_forwards = map local_forward
     [[''27017'', ''mongo-0'', ''27017''], [''27018'', ''mongo-1'', ''27017'']]"
proof -
  let ?c = "''ssh -L 27017:mongo-0:27017 -L 27018:mongo-1:27017 -p 4022 bob@db.internal''"
  have p1: "parse_ssh_command ''ssh -D 1080 carol@jump.host'' =
     Inr \<lparr>ttype = Dynamic, ssh_port = ''22'', local_port = ''1080'', remote_host = ''localhost'',
          remote_port = [], ssh_user = ''carol'', ssh_host = ''jump.host'', name = ''jump.host_D1080'',
          forwards = []\<rparr>" by code_simp
  have d1: "dynamic_match ''ssh -D 1080 carol@jump.host'' = Some ([''1080''], '' carol@jump.host'')"
    by code_simp
  have p2: "parse_ssh_command ?c = Inr two_forwards" by code_simp
  have d2: "dynamic_match ?c = None" by code_simp
  have r2: "remote_matches ?c = []" by code_simp
  have l2: "local_matches ?c = [[''27017'', ''mongo-0'', ''27017''], [''27018'', ''mongo-1'', ''27017'']]"
    by code_simp
  from type_resolution [OF p2] d2 r2 l2
  have "ttype two_forwards = Local \<and> read_forwards two_forwards = map local_forward
     [[''27017'', ''mongo-0'', ''27017''], [''27018'', ''mongo-1'', ''27017'']]"
    by simp
  with p1 d1 p2 d2 r2 l2 show ?thesis by blast
qed

text \<open>
  C1 as stated fails: two \<open>-L\<close> triples with a \<open>-D\<close> flag give a dynamic
  configuration that still stores both forwards, and with a single \<open>-R\<close> flag a remote
  configuration whose stored forwards are the two \<open>-L\<close> triples.
\<close>

theorem type_resolution_counterexample:
  "parse_ssh_command ''ssh -L 1:a:2 -L 3:b:4 -D 1080 u@h'' =
     Inr \<lparr>ttype = Dynamic, ssh_port = ''22'', local_port = ''1080'', remote_host = ''localhost'',
          remote_port = [], ssh_user = ''u'', ssh_host = ''h'', name = ''h_D1080'',
          forwards = stale_forwards\<rparr> \<and>
   remote_matches ''ssh -L 1:a:2 -L 3:b:4 -R 5:c:6 u@h'' = [[''5'', ''c'', ''6'']] \<and>
   parse_ssh_command ''ssh -L 1:a:2 -L 3:b:4 -R 5:c:6 u@h'' =
     Inr \<lparr>ttype = Remote, ssh_port = ''22'', local_port = ''6'', remote_host = ''c'',
          remote_port = ''5'', ssh_user = ''u'', ssh_host = ''h'', name = ''h_R2x'',
          forwards = stale_forwards\<rparr>"
  by code_simp

section \<open>What the parser accepts\<close>

lemma search_forward_valid:
  assumes "search (rx_forward f) b s = Some (gs, r)" shows "valid_triple gs"
proof -
  from search_SomeD [OF assms] obtain s' b' where "rmatch (rx_forward f) b' s' = Some (gs, r)" by blast
  from rmatch_forwardD [OF this] show ?thesis by (auto simp: valid_triple_def)
qed

lemma findall_forward_valid: "list_all valid_triple (findall (rx_forward f) b s)"
proof (induction "rx_forward f" b s rule: findall.induct)
  case (1 b s)
  show ?case
  proof (cases "search (rx_forward f) b s")
    case None
    then show ?thesis by (subst findall.simps) simp
  next
    case (Some res)
    obtain gs r where res: "res = (gs, r)" by (cases res)
    with Some have s: "search (rx_forward f) b s = Some (gs, r)" by simp
    from flag_progress [OF flag_pattern_forward s] have l: "length r < length s" .
    from 1 [OF s refl l] search_forward_valid [OF s] s l show ?thesis
      by (subst findall.simps) simp
  qed
qed

lemma search_option_valid:
  assumes "search (rx_option f) b s = Some (gs, r)" shows "\<exists>d. gs = [d] \<and> digits d"
proof -
  from search_SomeD [OF assms] obtain s' b' where "rmatch (rx_option f) b' s' = Some (gs, r)" by blast
  from rmatch_optionD [OF this] show ?thesis by auto
qed

lemma search_user_host_valid:
  assumes "search rx_user_host b s = Some (gs, r)" shows "\<exists>u h. gs = [u, h] \<and> user_text u \<and> clean h"
proof -
  from search_SomeD [OF assms] obtain s' b' where "rmatch rx_user_host b' s' = Some (gs, r)" by blast
  from rmatch_user_hostD [OF this] show ?thesis by auto
qed

lemma valid_local_forward: "valid_triple m \<Longrightarrow> valid_forward (local_forward m)"
  and valid_remote_forward: "valid_triple m \<Longrightarrow> valid_forward (remote_forward m)"
  by (simp_all add: valid_triple_def valid_forward_def local_forward_def remote_forward_def)

lemma digits_22: "digits ''22''"
  by (simp add: digits_def is_digit_def)

lemma matched_well_formed:
  assumes lm: "list_all valid_triple lm" and rm: "list_all valid_triple rm"
    and dm: "\<And>gs r. dm = Some (gs, r) \<Longrightarrow> \<exists>d. gs = [d] \<and> digits d"
    and pm: "\<And>gs r. pm = Some (gs, r) \<Longrightarrow> \<exists>d. gs = [d] \<and> digits d"
    and u: "user_text u" and h: "clean h"
  shows "well_formed ((matched lm rm dm pm)\<lparr>ssh_user := u, ssh_host := h\<rparr>)"
proof -
  let ?m = "matched lm rm dm pm"
  let ?c = "?m\<lparr>ssh_user := u, ssh_host := h\<rparr>"
  have fw: "forwards ?c = forwards ?m" and ty: "ttype ?c = ttype ?m"
    and lg: "legacy_forward ?c = legacy_forward ?m" and po: "ssh_port ?c = ssh_port ?m"
    and lp: "local_port ?c = fw_local_port (legacy_forward ?m)"
    by (simp_all add: legacy_forward_def)
  have port: "digits (ssh_port ?c)"
    unfolding po matched_port using pm digits_22 by (cases pm) auto
  have len: "length (forwards ?c) \<noteq> 1"
    unfolding fw matched_forwards by auto
  have one: "length ms < 2 \<Longrightarrow> ms \<noteq> [] \<Longrightarrow> length ms = 1 \<and> ms = [hd ms]" for ms :: "string list list"
    by (cases ms) auto
  have vl: "list_all valid_forward (map local_forward lm)" using lm
    by (simp add: list_all_iff valid_local_forward)
  have vr: "list_all valid_forward (map remote_forward rm)" using rm
    by (simp add: list_all_iff valid_remote_forward)
  have shape: "case ttype ?c of
         Dynamic \<Rightarrow> digits (local_port ?c)
       | Remote \<Rightarrow> list_all valid_forward (read_forwards ?c)
       | Local \<Rightarrow>
           list_all valid_forward (read_forwards ?c) \<or>
           forwards ?c = [] \<and> legacy_forward ?c = legacy_forward default_config"
  proof (cases dm)
    case (Some res)
    obtain gs r where "res = (gs, r)" by (cases res)
    with Some dm [of gs r] obtain d where d: "dm = Some ([d], r)" "digits d" by auto
    then have "fw_local_port (legacy_forward ?m) = d" by (simp add: matched_legacy)
    then have "local_port ?c = d" by (simp add: legacy_forward_def)
    with d show ?thesis by (simp add: ty matched_ttype)
  next
    case None
    note d = this
    show ?thesis
    proof (cases "rm = []")
      case False
      then have t: "ttype ?c = Remote" using d by (simp add: ty matched_ttype)
      show ?thesis
      proof (cases "2 \<le> length rm")
        case True
        with vr have "list_all valid_forward (read_forwards ?c)"
          by (auto simp: read_forwards_def fw matched_forwards)
        with t show ?thesis by simp
      next
        case F: False
        with False one [of rm] have 1: "length rm = 1" "rm = [hd rm]" by auto
        from rm False have v: "valid_triple (hd rm)" by (cases rm) auto
        have a: "legacy_forward ?c = remote_forward (hd rm)"
          unfolding lg matched_legacy using 1(1) d False by (simp add: remote_forward_def)
        have "list_all valid_forward (read_forwards ?c)"
        proof (cases "2 \<le> length lm")
          case True
          with F vl show ?thesis by (auto simp: read_forwards_def fw matched_forwards)
        next
          case False
          with F have "forwards ?c = []" by (simp add: fw matched_forwards)
          with a v show ?thesis by (simp add: read_forwards_def valid_remote_forward)
        qed
        with t show ?thesis by simp
      qed
    next
      case True
      then have t: "ttype ?c = Local" using d by (simp add: ty matched_ttype)
      show ?thesis
      proof (cases "2 \<le> length lm")
        case T2: True
        with True vl have "list_all valid_forward (read_forwards ?c)"
          by (auto simp: read_forwards_def fw matched_forwards)
        with t show ?thesis by simp
      next
        case F: False
        with True have f0: "forwards ?c = []" by (simp add: fw matched_forwards)
        show ?thesis
        proof (cases "lm = []")
          case T3: True
          have "legacy_forward ?c = legacy_forward default_config"
            unfolding lg matched_legacy using T3 True d by (simp add: legacy_forward_def default_config_def)
          with t f0 show ?thesis by simp
        next
          case False
          with F one [of lm] have 1: "length lm = 1" "lm = [hd lm]" by auto
          from lm False have v: "valid_triple (hd lm)" by (cases lm) auto
          have a: "legacy_forward ?c = local_forward (hd lm)"
            unfolding lg matched_legacy using 1(1) d True False by (simp add: local_forward_def)
          with f0 v have "list_all valid_forward (read_forwards ?c)"
            by (simp add: read_forwards_def valid_local_forward)
          with t show ?thesis by simp
        qed
      qed
    qed
  qed
  from port len shape u h show ?thesis
    unfolding well_formed_def by simp
qed

lemma read_forwards_name: "read_forwards (c\<lparr>name := n\<rparr>) = read_forwards c"
  by (simp add: read_forwards_def legacy_forward_def)

lemma well_formed_name: "well_formed (c\<lparr>name := n\<rparr>) = well_formed c"
  by (simp add: well_formed_def read_forwards_name legacy_forward_def split: tunnel_type.splits)

lemma parse_well_formed:
  assumes "parse_ssh_command command = Inr cfg" shows "well_formed cfg"
proof -
  from parse_InrD [OF assms] obtain gs r c where
    uh: "user_host_match command = Some (gs, r)"
    and c: "c = (matched (local_matches command) (remote_matches command) (dynamic_match command)
                  (port_match command))\<lparr>ssh_user := gs ! 0, ssh_host := gs ! 1\<rparr>"
    and cfg: "cfg = c\<lparr>name := default_name c\<rparr>"
    by blast
  from search_user_host_valid [OF uh [unfolded user_host_match_def]] obtain u h where
    g: "gs = [u, h]" "user_text u" "clean h" by blast
  have "well_formed c"
    unfolding c using g
    by (auto intro!: matched_well_formed
        simp: local_matches_def remote_matches_def dynamic_match_def port_match_def
          findall_forward_valid dest: search_option_valid)
  then show ?thesis by (simp add: cfg well_formed_name)
qed

section \<open>Finding all matches, token by token\<close>

lemma flag_findall_cong:
  assumes "flag_pattern rx f" "search rx b s = search rx b' s'"
  shows "findall rx b s = findall rx b' s'"
  by (simp add: flag_findall [OF assms(1), of b s] flag_findall [OF assms(1), of b' s'] assms(2))

lemma flag_findall_none:
  assumes "flag_pattern rx f" "search rx b s = None"
  shows "findall rx b s = []"
  by (simp add: flag_findall [OF assms(1), of b s] assms(2))

lemma flag_findall_hit:
  assumes "flag_pattern rx f" "search rx b s = Some (gs, r)"
  shows "findall rx b s = gs # findall rx False r"
  by (simp add: flag_findall [OF assms(1), of b s] assms(2))

lemma forward_flags_found:
  assumes v: "list_all (\<lambda>x. digits (a x) \<and> host_text (h x) \<and> digits (c x)) xs"
    and r: "r = [] \<or> hd r = CHR '' ''"
  shows "findall (rx_forward f) b (sp (concat (map (\<lambda>x. [[CHR ''-'', f], triple (a x) (h x) (c x)]) xs)) @ r)
           = map (\<lambda>x. [a x, h x, c x]) xs @ findall (rx_forward f) False r"
  using v
proof (induction xs arbitrary: b)
  case Nil
  show ?case
    using flag_findall_cong [OF flag_pattern_forward flag_search_b [OF flag_pattern_forward], of f b r]
    by simp
next
  case (Cons x xs)
  let ?rest = "sp (concat (map (\<lambda>x. [[CHR ''-'', f], triple (a x) (h x) (c x)]) xs)) @ r"
  from Cons.prems have x: "digits (a x)" "host_text (h x)" "digits (c x)" by simp_all
  have rest: "?rest = [] \<or> hd ?rest = CHR '' ''" by (rule sp_hd [OF r])
  then have nd: "?rest = [] \<or> \<not> is_digit (hd ?rest)" by auto
  have m: "rmatch (rx_forward f) False
      (CHR ''-'' # f # CHR '' '' # a x @ CHR '':'' # h x @ CHR '':'' # c x @ ?rest) = Some ([a x, h x, c x], ?rest)"
    by (rule rmatch_forwardI [OF x nd])
  have "search (rx_forward f) b
      (CHR '' '' # CHR ''-'' # f # CHR '' '' # a x @ CHR '':'' # h x @ CHR '':'' # c x @ ?rest)
      = Some ([a x, h x, c x], ?rest)"
    unfolding flag_skip_blank [OF flag_pattern_forward] by (rule search_hit [OF m])
  from flag_findall_hit [OF flag_pattern_forward this] Cons.IH [of False] Cons.prems
  show ?case by (simp add: triple_def)
qed

section \<open>The tokens of the exported text\<close>

lemma export_shape:
  "export_to_command cfg =
     ''ssh'' @ sp (''-N'' # start_flags cfg @ port_tokens cfg) @ CHR '' '' # ssh_user cfg @ CHR ''@'' # ssh_host cfg"
  by (simp add: export_join export_tokens_def join_space port_tokens_def del: join.simps)

lemma digits_no_space: "digits d \<Longrightarrow> list_all (\<lambda>c. \<not> is_space c) d"
  by (auto simp: digits_def list_all_iff dest: is_digit_not_space)

lemma host_no_space: "host_text h \<Longrightarrow> list_all (\<lambda>c. \<not> is_space c) h"
  by (auto simp: host_text_def list_all_iff)

lemma user_no_space: "user_text u \<Longrightarrow> list_all (\<lambda>c. \<not> is_space c) u"
  by (auto simp: user_text_def list_all_iff)

lemma digits_no_at: "digits d \<Longrightarrow> CHR ''@'' \<notin> set d"
  by (auto simp: digits_def list_all_iff)

lemma plain_by_last:
  assumes "list_all (\<lambda>c. \<not> is_space c) t" "t \<noteq> []" "last t \<noteq> f"
  shows "plain f t"
proof -
  have "\<not> suffix [CHR ''-'', f] t"
  proof
    assume "suffix [CHR ''-'', f] t"
    then obtain zs where "t = zs @ [CHR ''-'', f]" by (auto simp: suffix_def)
    then have "last t = f" by simp
    with assms(3) show False by simp
  qed
  with assms(1) show ?thesis by (simp add: plain_def)
qed

lemma plain_digits: "digits d \<Longrightarrow> \<not> is_digit f \<Longrightarrow> plain f d"
proof (rule plain_by_last)
  assume d: "digits d" and f: "\<not> is_digit f"
  from d show "list_all (\<lambda>c. \<not> is_space c) d" by (rule digits_no_space)
  from d show "d \<noteq> []" by (simp add: digits_def)
  from d have "is_digit (last d)" by (auto simp: digits_def list_all_iff)
  with f show "last d \<noteq> f" by auto
qed

lemma plain_flag: "g \<noteq> f \<Longrightarrow> \<not> is_space g \<Longrightarrow> plain f [CHR ''-'', g]"
  by (simp add: plain_def suffix_def)

lemma triple_no_space:
  "list_all (\<lambda>c. \<not> is_space c) a \<Longrightarrow> list_all (\<lambda>c. \<not> is_space c) h \<Longrightarrow>
   list_all (\<lambda>c. \<not> is_space c) c \<Longrightarrow> list_all (\<lambda>c. \<not> is_space c) (triple a h c)"
  by (simp add: triple_def)

lemma plain_triple:
  assumes "digits a" "host_text h" "digits c" "\<not> is_digit f"
  shows "plain f (triple a h c)"
proof (rule plain_by_last)
  show "list_all (\<lambda>c. \<not> is_space c) (triple a h c)"
    using assms by (intro triple_no_space digits_no_space host_no_space)
  show "triple a h c \<noteq> []" by (simp add: triple_def)
  from assms(3) have "c \<noteq> []" "is_digit (last c)" by (auto simp: digits_def list_all_iff)
  then have "is_digit (last (triple a h c))" by (simp add: triple_def)
  with assms(4) show "last (triple a h c) \<noteq> f" by auto
qed

lemma plain_default_triple: "f \<noteq> CHR '':'' \<Longrightarrow> plain f (triple [] ''localhost'' [])"
  by (rule plain_by_last) (simp_all add: triple_def is_space_def)

declare search.simps [simp del]

lemma list_all_concat_pairs:
  "list_all P (concat (map (\<lambda>x. [g x, k x]) xs)) = list_all (\<lambda>x. P (g x) \<and> P (k x)) xs"
  by (induction xs) simp_all

lemma valid_or_default:
  assumes "well_formed cfg" "ttype cfg \<noteq> Dynamic"
  shows "list_all valid_forward (read_forwards cfg) \<or>
         ttype cfg = Local \<and> read_forwards cfg = [legacy_forward default_config]"
  using assms by (cases "ttype cfg") (auto simp: well_formed_def read_forwards_def)

lemma legacy_default:
  "fw_local_port (legacy_forward default_config) = []"
  "fw_remote_host (legacy_forward default_config) = ''localhost''"
  "fw_remote_port (legacy_forward default_config) = []"
  by (simp_all add: legacy_forward_def default_config_def)

lemma char_not_space [simp]: "\<not> is_space CHR ''L''" "\<not> is_space CHR ''R''" "\<not> is_space CHR ''D''"
  "\<not> is_space CHR ''p''" "\<not> is_space CHR ''N''"
  by (simp_all add: is_space_def)

lemma start_flags_plain:
  assumes wf: "well_formed cfg" and f: "\<not> is_digit f" "f \<noteq> CHR '':''" "f \<noteq> flag_letter (ttype cfg)"
  shows "list_all (plain f) (start_flags cfg)"
proof (cases "ttype cfg")
  case Dynamic
  with wf have "digits (local_port cfg)" by (simp add: well_formed_def)
  with Dynamic f show ?thesis
    by (simp add: start_flags_def plain_digits plain_flag flag_letter_def)
next
  case Local
  with f have fl: "plain f ''-L''" by (simp add: plain_flag flag_letter_def)
  from valid_or_default [OF wf] Local
  consider "list_all valid_forward (read_forwards cfg)" | "read_forwards cfg = [legacy_forward default_config]"
    by auto
  then show ?thesis
  proof cases
    case 1
    with f fl Local show ?thesis
      by (auto simp: start_flags_read list_all_concat_pairs list_all_iff valid_forward_def plain_triple)
  next
    case 2
    with f fl Local show ?thesis
      by (simp add: start_flags_read legacy_default plain_default_triple)
  qed
next
  case Remote
  with f have fl: "plain f ''-R''" by (simp add: plain_flag flag_letter_def)
  from valid_or_default [OF wf] Remote have "list_all valid_forward (read_forwards cfg)" by auto
  with f fl Remote show ?thesis
    by (auto simp: start_flags_read list_all_concat_pairs list_all_iff valid_forward_def plain_triple)
qed

lemma port_tokens_plain:
  assumes "well_formed cfg" "\<not> is_digit f" "f \<noteq> CHR ''p''"
  shows "list_all (plain f) (port_tokens cfg)"
  using assms by (simp add: port_tokens_def well_formed_def plain_digits plain_flag)

lemma user_at_host_no_space:
  assumes "well_formed cfg"
  shows "list_all (\<lambda>c. \<not> is_space c) (ssh_user cfg @ CHR ''@'' # ssh_host cfg)"
  using assms by (simp add: well_formed_def user_no_space clean_def)

lemma tail_hd: "tail cfg = [] \<or> hd (tail cfg) = CHR '' ''"
  by (rule sp_hd) simp

lemma last_none:
  assumes fp: "flag_pattern rx f" and wf: "well_formed cfg"
  shows "search rx b (CHR '' '' # ssh_user cfg @ CHR ''@'' # ssh_host cfg) = None"
  unfolding flag_skip_blank [OF fp]
  by (rule flag_last_token [OF fp user_at_host_no_space [OF wf]])

lemma tail_none:
  assumes fp: "flag_pattern rx f" and f: "f \<noteq> CHR '' ''" "\<not> is_digit f" "f \<noteq> CHR ''p''"
    and wf: "well_formed cfg"
  shows "search rx b (tail cfg) = None"
proof -
  have "search rx b (tail cfg) = search rx False (CHR '' '' # ssh_user cfg @ CHR ''@'' # ssh_host cfg)"
    by (rule flag_skip_tokens [OF fp f(1) _ port_tokens_plain [OF wf f(2,3)]]) simp
  then show ?thesis by (simp only: last_none [OF fp wf])
qed

lemma plain_ssh: "plain f ''ssh''"
  by (simp add: plain_def suffix_Cons is_space_def)

lemma plain_N: "f \<noteq> CHR ''N'' \<Longrightarrow> plain f ''-N''"
  by (simp add: plain_flag)

text \<open>Everything up to the flags of the type is passed over.\<close>

lemma export_skip_head:
  assumes fp: "flag_pattern rx f" and f: "f \<noteq> CHR '' ''" "f \<noteq> CHR ''N''"
  shows "search rx b (export_to_command cfg) = search rx False (sp (start_flags cfg) @ tail cfg)"
proof -
  let ?rest = "sp [''-N''] @ (sp (start_flags cfg) @ tail cfg)"
  have e: "export_to_command cfg = ''ssh'' @ ?rest" by (simp add: export_shape)
  have "search rx b (''ssh'' @ ?rest) = search rx False ?rest"
    by (rule flag_skip_token [OF fp f(1) _ plain_ssh]) simp
  also have "\<dots> = search rx False (sp (start_flags cfg) @ tail cfg)"
    by (rule flag_skip_tokens [OF fp f(1) sp_hd [OF tail_hd]]) (simp add: plain_N f)
  finally show ?thesis by (simp only: e)
qed

lemma export_search_none:
  assumes fp: "flag_pattern rx f" and f: "f \<noteq> CHR '' ''" "f \<noteq> CHR ''N''" "\<not> is_digit f"
      "f \<noteq> CHR '':''" "f \<noteq> CHR ''p''" "f \<noteq> flag_letter (ttype cfg)"
    and wf: "well_formed cfg"
  shows "search rx b (export_to_command cfg) = None"
proof -
  have "search rx False (sp (start_flags cfg) @ tail cfg) = search rx False (tail cfg)"
    by (rule flag_skip_tokens [OF fp f(1) tail_hd start_flags_plain [OF wf f(3,4,6)]])
  with tail_none [OF fp f(1,3,5) wf] show ?thesis
    by (simp add: export_skip_head [OF fp f(1,2)])
qed

section \<open>The matches in an exported text\<close>

lemma clean_digits: "digits d \<Longrightarrow> clean d"
  by (simp add: clean_def digits_no_space) (simp add: digits_def)

lemma clean_triple:
  "list_all (\<lambda>c. \<not> is_space c) a \<Longrightarrow> list_all (\<lambda>c. \<not> is_space c) h \<Longrightarrow>
   list_all (\<lambda>c. \<not> is_space c) c \<Longrightarrow> clean (triple a h c)"
  by (simp add: clean_def triple_no_space) (simp add: triple_def)

lemma clean_valid_triples:
  "valid_forward x \<Longrightarrow> clean (triple (fw_local_port x) (fw_remote_host x) (fw_remote_port x))"
  "valid_forward x \<Longrightarrow> clean (triple (fw_remote_port x) (fw_remote_host x) (fw_local_port x))"
  by (simp_all add: valid_forward_def clean_triple digits_no_space host_no_space)

lemma clean_flags [simp]: "clean ''ssh''" "clean ''-N''" "clean ''-L''" "clean ''-R''" "clean ''-D''" "clean ''-p''"
  "clean (triple [] ''localhost'' [])"
  by (simp_all add: clean_def is_space_def triple_def)

lemma start_flags_clean:
  assumes wf: "well_formed cfg"
  shows "list_all clean (start_flags cfg)"
proof (cases "ttype cfg")
  case Dynamic
  with wf have "digits (local_port cfg)" by (simp add: well_formed_def)
  with Dynamic show ?thesis by (simp add: start_flags_def clean_digits)
next
  case Local
  from valid_or_default [OF wf] Local
  consider "list_all valid_forward (read_forwards cfg)" | "read_forwards cfg = [legacy_forward default_config]"
    by auto
  then show ?thesis
  proof cases
    case 1
    with Local show ?thesis
      by (auto simp: start_flags_read list_all_concat_pairs list_all_iff clean_valid_triples)
  next
    case 2
    with Local show ?thesis by (simp add: start_flags_read legacy_default)
  qed
next
  case Remote
  from valid_or_default [OF wf] Remote have "list_all valid_forward (read_forwards cfg)" by auto
  with Remote show ?thesis
    by (auto simp: start_flags_read list_all_concat_pairs list_all_iff clean_valid_triples)
qed

lemma export_tokens_clean:
  assumes wf: "well_formed cfg"
  shows "list_all clean (export_tokens cfg)"
proof -
  from wf have "clean (ssh_user cfg @ ''@'' @ ssh_host cfg)"
    using user_at_host_no_space [OF wf] by (simp add: clean_def)
  moreover from wf have "clean (ssh_port cfg)" by (simp add: well_formed_def clean_digits)
  ultimately show ?thesis
    using start_flags_clean [OF wf] by (simp add: export_tokens_def)
qed

lemma export_normalize:
  assumes "well_formed cfg"
  shows "normalize (export_to_command cfg) = export_to_command cfg"
  unfolding normalize_def export_join
  by (simp only: py_split_join [OF export_tokens_clean [OF assms]])

lemma export_startswith: "startswith (export_to_command cfg) ''ssh''"
  by (simp add: export_to_command_def)

lemma rx_letters [simp]: "\<not> is_digit CHR ''L''" "\<not> is_digit CHR ''R''" "\<not> is_digit CHR ''D''"
  "\<not> is_digit CHR ''p''"
  by (simp_all add: is_digit_def)

text \<open>The forward flags of the type are found, in order; the tail holds none.\<close>

lemma export_forwards_found:
  assumes wf: "well_formed cfg"
    and sf: "start_flags cfg = concat (map (\<lambda>x. [[CHR ''-'', f], triple (a x) (h x) (c x)]) xs)"
    and v: "list_all (\<lambda>x. digits (a x) \<and> host_text (h x) \<and> digits (c x)) xs"
    and f: "f \<noteq> CHR '' ''" "f \<noteq> CHR ''N''" "\<not> is_digit f" "f \<noteq> CHR ''p''"
  shows "findall (rx_forward f) b (export_to_command cfg) = map (\<lambda>x. [a x, h x, c x]) xs"
proof -
  note fp = flag_pattern_forward [of f]
  have "findall (rx_forward f) b (export_to_command cfg)
      = findall (rx_forward f) False (sp (start_flags cfg) @ tail cfg)"
    by (rule flag_findall_cong [OF fp export_skip_head [OF fp f(1,2)]])
  also have "\<dots> = map (\<lambda>x. [a x, h x, c x]) xs @ findall (rx_forward f) False (tail cfg)"
    unfolding sf by (rule forward_flags_found [OF v tail_hd])
  also have "findall (rx_forward f) False (tail cfg) = []"
    by (rule flag_findall_none [OF fp tail_none [OF fp f(1,3,4) wf]])
  finally show ?thesis by simp
qed

lemma export_forwards_none:
  assumes wf: "well_formed cfg" and f: "f \<noteq> flag_letter (ttype cfg)"
      "f \<noteq> CHR '' ''" "f \<noteq> CHR ''N''" "\<not> is_digit f" "f \<noteq> CHR '':''" "f \<noteq> CHR ''p''"
  shows "findall (rx_forward f) b (export_to_command cfg) = []"
  by (rule flag_findall_none [OF flag_pattern_forward
        export_search_none [OF flag_pattern_forward f(2,3,4,5,6,1) wf]])

text \<open>A forward flag before a text that does not begin with a digit is no match.\<close>

lemma forward_needs_digit:
  assumes "\<not> is_digit x" "\<not> is_space x"
  shows "rmatch (rx_forward f) b (CHR ''-'' # f # CHR '' '' # x # rest) = None"
proof (rule ccontr)
  assume "rmatch (rx_forward f) b (CHR ''-'' # f # CHR '' '' # x # rest) \<noteq> None"
  then obtain gs r where "rmatch (rx_forward f) b (CHR ''-'' # f # CHR '' '' # x # rest) = Some (gs, r)"
    by auto
  from rmatch_forwardD [OF this] obtain ws d1 t where
    e: "CHR '' '' # x # rest = ws @ d1 @ t" and ws: "ws \<noteq> []" "list_all is_space ws" and d1: "digits d1"
    by auto
  from ws obtain w ws' where w: "ws = w # ws'" by (cases ws) auto
  with e have e': "x # rest = ws' @ d1 @ t" by simp
  show False
  proof (cases ws')
    case Nil
    from d1 obtain y d' where "d1 = y # d'" "is_digit y" by (cases d1) (auto simp: digits_def)
    with e' Nil assms show ?thesis by simp
  next
    case (Cons y ys)
    with e' ws w assms show ?thesis by simp
  qed
qed

lemma plain_letter: "\<not> is_space f \<Longrightarrow> plain f [f]"
  by (simp add: plain_def suffix_def)

lemma export_default_none:
  assumes wf: "well_formed cfg" and t: "ttype cfg = Local"
    and d: "read_forwards cfg = [legacy_forward default_config]"
  shows "findall (rx_forward CHR ''L'') b (export_to_command cfg) = []"
proof -
  note fp = flag_pattern_forward [of "CHR ''L''"]
  let ?rx = "rx_forward CHR ''L''"
  let ?tok = "triple [] ''localhost'' []"
  let ?r = "sp [?tok] @ tail cfg"
  have sf: "sp (start_flags cfg) @ tail cfg = CHR '' '' # (CHR ''-'' # CHR ''L'' # ?r)"
    using t d by (simp add: start_flags_read legacy_default)
  have "rmatch ?rx False (CHR ''-'' # CHR ''L'' # CHR '' '' # CHR '':'' # ''localhost:'' @ tail cfg) = None"
    by (rule forward_needs_digit) simp_all
  then have m: "rmatch ?rx False (CHR ''-'' # CHR ''L'' # ?r) = None"
    by (simp add: triple_def)
  have "search ?rx False (sp (start_flags cfg) @ tail cfg) = search ?rx False (CHR ''-'' # CHR ''L'' # ?r)"
    unfolding sf by (rule flag_skip_blank [OF fp])
  also have "\<dots> = search ?rx False (''L'' @ ?r)"
    using search_miss [OF m] by simp
  also have "\<dots> = search ?rx False ?r"
    by (rule flag_skip_token [OF fp _ sp_hd [OF tail_hd]]) (simp_all add: plain_letter)
  also have "\<dots> = search ?rx False (tail cfg)"
    by (rule flag_skip_tokens [OF fp _ tail_hd]) (simp_all add: plain_default_triple)
  also have "\<dots> = None"
    by (rule tail_none [OF fp _ _ _ wf]) simp_all
  finally have "search ?rx b (export_to_command cfg) = None"
    by (simp only: export_skip_head [OF fp, of b cfg, simplified])
  then show ?thesis by (rule flag_findall_none [OF fp])
qed

text \<open>The dynamic flag and the port flag.\<close>

lemma export_dynamic_found:
  assumes wf: "well_formed cfg" and t: "ttype cfg = Dynamic"
  shows "search (rx_option CHR ''D'') b (export_to_command cfg) = Some ([local_port cfg], tail cfg)"
proof -
  note fp = flag_pattern_option [of "CHR ''D''"]
  from wf t have d: "digits (local_port cfg)" by (simp add: well_formed_def)
  from tail_hd [of cfg] have nd: "tail cfg = [] \<or> \<not> is_digit (hd (tail cfg))" by auto
  have sf: "sp (start_flags cfg) @ tail cfg = CHR '' '' # CHR ''-'' # CHR ''D'' # CHR '' '' # local_port cfg @ tail cfg"
    using t by (simp add: start_flags_def)
  have "search (rx_option CHR ''D'') False (sp (start_flags cfg) @ tail cfg) = Some ([local_port cfg], tail cfg)"
    unfolding sf flag_skip_blank [OF fp] by (rule search_hit [OF rmatch_optionI [OF d nd]])
  then show ?thesis by (simp add: export_skip_head [OF fp])
qed

lemma export_port_found:
  assumes wf: "well_formed cfg"
  shows "search (rx_option CHR ''p'') b (export_to_command cfg) =
           (if ssh_port cfg \<noteq> ''22''
            then Some ([ssh_port cfg], CHR '' '' # ssh_user cfg @ CHR ''@'' # ssh_host cfg)
            else None)"
proof -
  note fp = flag_pattern_option [of "CHR ''p''"]
  let ?uh = "CHR '' '' # ssh_user cfg @ CHR ''@'' # ssh_host cfg"
  from wf have d: "digits (ssh_port cfg)" by (simp add: well_formed_def)
  have nl: "CHR ''p'' \<noteq> flag_letter (ttype cfg)" by (simp add: flag_letter_def split: tunnel_type.splits)
  have 1: "search (rx_option CHR ''p'') b (export_to_command cfg) = search (rx_option CHR ''p'') False (tail cfg)"
    unfolding export_skip_head [OF fp, of b cfg, simplified]
    by (rule flag_skip_tokens [OF fp _ tail_hd start_flags_plain [OF wf _ _ nl]]) simp_all
  show ?thesis
  proof (cases "ssh_port cfg = ''22''")
    case True
    then have "tail cfg = ?uh" by (simp add: port_tokens_def)
    with True 1 last_none [OF fp wf] show ?thesis by simp
  next
    case False
    then have t: "tail cfg = CHR '' '' # CHR ''-'' # CHR ''p'' # CHR '' '' # ssh_port cfg @ ?uh"
      by (simp add: port_tokens_def)
    have "search (rx_option CHR ''p'') False (tail cfg) = Some ([ssh_port cfg], ?uh)"
      unfolding t flag_skip_blank [OF fp] by (rule search_hit [OF rmatch_optionI [OF d]]) simp
    with False 1 show ?thesis by simp
  qed
qed

text \<open>The last token is the first with an \<open>@\<close> when no remote host has one.\<close>

lemma start_flags_no_at:
  assumes wf: "well_formed cfg" and h: "list_all (\<lambda>h. CHR ''@'' \<notin> set h) (exported_hosts cfg)"
  shows "list_all (\<lambda>t. list_all (\<lambda>c. \<not> is_space c) t \<and> CHR ''@'' \<notin> set t) (start_flags cfg)"
proof -
  have ns: "list_all (\<lambda>t. list_all (\<lambda>c. \<not> is_space c) t) (start_flags cfg)"
    using start_flags_clean [OF wf] by (simp add: list_all_iff clean_def)
  have na: "list_all (\<lambda>t. CHR ''@'' \<notin> set t) (start_flags cfg)"
  proof (cases "ttype cfg")
    case Dynamic
    with wf have "digits (local_port cfg)" by (simp add: well_formed_def)
    with Dynamic show ?thesis by (simp add: start_flags_def digits_no_at)
  next
    case Local
    from valid_or_default [OF wf] Local
    consider "list_all valid_forward (read_forwards cfg)" | "read_forwards cfg = [legacy_forward default_config]"
      by auto
    then show ?thesis
    proof cases
      case 1
      with Local h show ?thesis
        by (auto simp: start_flags_read list_all_concat_pairs list_all_iff valid_forward_def
            exported_hosts_def triple_def digits_no_at)
    next
      case 2
      with Local show ?thesis by (simp add: start_flags_read legacy_default triple_def)
    qed
  next
    case Remote
    from valid_or_default [OF wf] Remote have "list_all valid_forward (read_forwards cfg)" by auto
    with Remote h show ?thesis
      by (auto simp: start_flags_read list_all_concat_pairs list_all_iff valid_forward_def
          exported_hosts_def triple_def digits_no_at)
  qed
  from ns na show ?thesis by (simp add: list_all_iff)
qed

lemma export_user_host_found:
  assumes wf: "well_formed cfg" and h: "list_all (\<lambda>h. CHR ''@'' \<notin> set h) (exported_hosts cfg)"
  shows "search rx_user_host True (export_to_command cfg) = Some ([ssh_user cfg, ssh_host cfg], [])"
proof -
  let ?uh = "CHR '' '' # ssh_user cfg @ CHR ''@'' # ssh_host cfg"
  let ?pre = "''-N'' # start_flags cfg @ port_tokens cfg"
  from wf have d: "digits (ssh_port cfg)" and u: "user_text (ssh_user cfg)" and c: "clean (ssh_host cfg)"
    by (simp_all add: well_formed_def)
  have pre: "list_all (\<lambda>t. list_all (\<lambda>c. \<not> is_space c) t \<and> CHR ''@'' \<notin> set t) ?pre"
    using start_flags_no_at [OF wf h] d
    by (simp add: port_tokens_def digits_no_space digits_no_at)
  have "search rx_user_host True (''ssh'' @ (sp ?pre @ ?uh)) = search rx_user_host False (sp ?pre @ ?uh)"
    by (rule user_host_skip_first [OF _ _ _ sp_hd]) (simp_all add: is_space_def)
  also have "\<dots> = search rx_user_host False ?uh"
    by (rule user_host_skip_tokens [OF _ pre]) simp
  also have "\<dots> = Some ([ssh_user cfg, ssh_host cfg], [])"
    by (rule search_hit [OF user_host_match_last [OF u c]])
  finally show ?thesis by (simp only: export_shape append_assoc)
qed

section \<open>The round trip\<close>

lemma local_forward_triple:
  "local_forward [fw_local_port x, fw_remote_host x, fw_remote_port x] = x"
  by (simp add: local_forward_def)

lemma remote_forward_triple:
  "remote_forward [fw_remote_port x, fw_remote_host x, fw_local_port x] = x"
  by (simp add: remote_forward_def)

lemma parse_export:
  assumes wf: "well_formed cfg" and h: "list_all (\<lambda>h. CHR ''@'' \<notin> set h) (exported_hosts cfg)"
  shows "parse_ssh_command (export_to_command cfg) =
     Inr (let c = (matched (local_matches (export_to_command cfg)) (remote_matches (export_to_command cfg))
                     (dynamic_match (export_to_command cfg)) (port_match (export_to_command cfg)))
                   \<lparr>ssh_user := ssh_user cfg, ssh_host := ssh_host cfg\<rparr>
          in c\<lparr>name := default_name c\<rparr>)"
proof -
  have "user_host_match (export_to_command cfg) = Some ([ssh_user cfg, ssh_host cfg], [])"
    unfolding user_host_match_def export_normalize [OF wf] by (rule export_user_host_found [OF wf h])
  then show ?thesis
    by (simp add: parse_ssh_command_def export_normalize [OF wf] export_startswith matched_def Let_def)
qed

lemma wf_forwards_length:
  assumes "well_formed cfg"
  shows "forwards cfg = [] \<or> 2 \<le> length (forwards cfg)"
proof -
  from assms have "length (forwards cfg) \<noteq> 1" by (simp add: well_formed_def)
  then show ?thesis by (cases "forwards cfg" rule: list.exhaust) (auto simp: Suc_le_eq)
qed

lemma matched_local_port: "local_port (matched lm rm dm pm) = fw_local_port (legacy_forward (matched lm rm dm pm))"
  and matched_remote_port: "remote_port (matched lm rm dm pm) = fw_remote_port (legacy_forward (matched lm rm dm pm))"
  by (simp_all add: legacy_forward_def)

text \<open>
  What parsing the exported text of a well-formed configuration gives back, field by
  field: the configuration before the user, the host and the name are set.
\<close>

lemma matched_export:
  assumes wf: "well_formed cfg"
  defines "m \<equiv> matched (local_matches (export_to_command cfg)) (remote_matches (export_to_command cfg))
                     (dynamic_match (export_to_command cfg)) (port_match (export_to_command cfg))"
  shows "ttype m = ttype cfg" and "ssh_port m = ssh_port cfg"
    and "ttype cfg = Dynamic \<Longrightarrow> local_port m = local_port cfg"
    and "ttype cfg \<noteq> Dynamic \<Longrightarrow> forwards m = forwards cfg"
    and "ttype cfg \<noteq> Dynamic \<Longrightarrow> forwards cfg = [] \<Longrightarrow> legacy_forward m = legacy_forward cfg"
proof -
  let ?e = "export_to_command cfg"
  have lm: "local_matches ?e = findall (rx_forward CHR ''L'') True ?e"
    and rm: "remote_matches ?e = findall (rx_forward CHR ''R'') True ?e"
    and dm: "dynamic_match ?e = search (rx_option CHR ''D'') True ?e"
    and pm: "port_match ?e = search (rx_option CHR ''p'') True ?e"
    by (simp_all add: local_matches_def remote_matches_def dynamic_match_def port_match_def
        export_normalize [OF wf])
  have port: "ssh_port m = ssh_port cfg"
    unfolding m_def matched_port pm export_port_found [OF wf] by simp
  have rf: "read_forwards cfg \<noteq> []" by (simp add: read_forwards_def)
  have rfl: "forwards cfg = [] \<Longrightarrow> read_forwards cfg = [legacy_forward cfg]"
    "forwards cfg \<noteq> [] \<Longrightarrow> read_forwards cfg = forwards cfg \<and> 2 \<le> length (forwards cfg)"
    using wf_forwards_length [OF wf] by (auto simp: read_forwards_def)
  have all: "ttype m = ttype cfg \<and> (ttype cfg = Dynamic \<longrightarrow> local_port m = local_port cfg) \<and>
      (ttype cfg \<noteq> Dynamic \<longrightarrow> forwards m = forwards cfg \<and>
         (forwards cfg = [] \<longrightarrow> legacy_forward m = legacy_forward cfg))"
  proof (cases "ttype cfg")
    case Dynamic
    have l: "local_matches ?e = []" unfolding lm
      by (rule export_forwards_none [OF wf]) (simp_all add: Dynamic flag_letter_def)
    have r: "remote_matches ?e = []" unfolding rm
      by (rule export_forwards_none [OF wf]) (simp_all add: Dynamic flag_letter_def)
    have d: "dynamic_match ?e = Some ([local_port cfg], tail cfg)" unfolding dm
      by (rule export_dynamic_found [OF wf Dynamic])
    show ?thesis
      using Dynamic by (simp add: m_def l r d matched_ttype matched_local_port matched_legacy)
  next
    case Remote
    have l: "local_matches ?e = []" unfolding lm
      by (rule export_forwards_none [OF wf]) (simp_all add: Remote flag_letter_def)
    have d: "dynamic_match ?e = None" unfolding dm
      by (rule export_search_none [OF flag_pattern_option _ _ _ _ _ _ wf]) (simp_all add: Remote flag_letter_def)
    from valid_or_default [OF wf] Remote have v: "list_all valid_forward (read_forwards cfg)" by auto
    have r: "remote_matches ?e = map (\<lambda>x. [fw_remote_port x, fw_remote_host x, fw_local_port x]) (read_forwards cfg)"
      unfolding rm
    proof (rule export_forwards_found [OF wf])
      show "start_flags cfg = concat (map (\<lambda>x. [[CHR ''-'', CHR ''R''],
          triple (fw_remote_port x) (fw_remote_host x) (fw_local_port x)]) (read_forwards cfg))"
        by (simp add: start_flags_read Remote)
      show "list_all (\<lambda>x. digits (fw_remote_port x) \<and> host_text (fw_remote_host x) \<and> digits (fw_local_port x))
          (read_forwards cfg)"
        using v by (auto simp: list_all_iff valid_forward_def)
    qed simp_all
    have ne: "remote_matches ?e \<noteq> []" using rf by (simp add: r)
    have t: "ttype m = Remote" using ne by (simp add: m_def d matched_ttype)
    have mr: "map remote_forward (remote_matches ?e) = read_forwards cfg"
      by (simp add: r comp_def remote_forward_triple)
    have len: "length (remote_matches ?e) = length (read_forwards cfg)" by (simp add: r)
    show ?thesis
    proof (cases "forwards cfg = []")
      case True
      from rfl(1) [OF True] len have one: "length (remote_matches ?e) = 1" by simp
      have hd: "hd (remote_matches ?e) = [remote_port cfg, remote_host cfg, local_port cfg]"
        using rfl(1) [OF True] by (simp add: r legacy_forward_def)
      have f: "forwards m = []" using one by (simp add: m_def l matched_forwards)
      have g: "legacy_forward m = legacy_forward cfg"
        unfolding m_def matched_legacy using one d ne hd by (simp add: legacy_forward_def)
      from t f g True Remote show ?thesis by simp
    next
      case False
      from rfl(2) [OF False] len mr have "forwards m = forwards cfg"
        by (simp add: m_def matched_forwards)
      with t False Remote show ?thesis by simp
    qed
  next
    case Local
    have r: "remote_matches ?e = []" unfolding rm
      by (rule export_forwards_none [OF wf]) (simp_all add: Local flag_letter_def)
    have d: "dynamic_match ?e = None" unfolding dm
      by (rule export_search_none [OF flag_pattern_option _ _ _ _ _ _ wf]) (simp_all add: Local flag_letter_def)
    have t: "ttype m = Local" by (simp add: m_def d r matched_ttype)
    from wf Local consider "list_all valid_forward (read_forwards cfg)"
      | "forwards cfg = []" "legacy_forward cfg = legacy_forward default_config"
      by (auto simp: well_formed_def)
    then show ?thesis
    proof cases
      case 1
      have l: "local_matches ?e = map (\<lambda>x. [fw_local_port x, fw_remote_host x, fw_remote_port x]) (read_forwards cfg)"
        unfolding lm
      proof (rule export_forwards_found [OF wf])
        show "start_flags cfg = concat (map (\<lambda>x. [[CHR ''-'', CHR ''L''],
            triple (fw_local_port x) (fw_remote_host x) (fw_remote_port x)]) (read_forwards cfg))"
          by (simp add: start_flags_read Local)
        show "list_all (\<lambda>x. digits (fw_local_port x) \<and> host_text (fw_remote_host x) \<and> digits (fw_remote_port x))
            (read_forwards cfg)"
          using 1 by (auto simp: list_all_iff valid_forward_def)
      qed simp_all
      have ne: "local_matches ?e \<noteq> []" using rf by (simp add: l)
      have ml: "map local_forward (local_matches ?e) = read_forwards cfg"
        by (simp add: l comp_def local_forward_triple)
      have len: "length (local_matches ?e) = length (read_forwards cfg)" by (simp add: l)
      show ?thesis
      proof (cases "forwards cfg = []")
        case True
        from rfl(1) [OF True] len have one: "length (local_matches ?e) = 1" by simp
        have hd: "hd (local_matches ?e) = [local_port cfg, remote_host cfg, remote_port cfg]"
          using rfl(1) [OF True] by (simp add: l legacy_forward_def)
        have f: "forwards m = []" using one by (simp add: m_def r matched_forwards)
        have g: "legacy_forward m = legacy_forward cfg"
          unfolding m_def matched_legacy using one d r ne hd by (simp add: legacy_forward_def)
        from t f g True Local show ?thesis by simp
      next
        case False
        from rfl(2) [OF False] len ml have "forwards m = forwards cfg"
          by (simp add: m_def r matched_forwards)
        with t False Local show ?thesis by simp
      qed
    next
      case 2
      have l: "local_matches ?e = []" unfolding lm
        by (rule export_default_none [OF wf Local]) (simp add: read_forwards_def 2)
      have f: "forwards m = []" by (simp add: m_def l r matched_forwards)
      have g: "legacy_forward m = legacy_forward cfg"
        unfolding m_def matched_legacy using l r d 2 by (simp add: legacy_forward_def default_config_def)
      from t f g 2 Local show ?thesis by simp
    qed
  qed
  from all port show "ttype m = ttype cfg" "ssh_port m = ssh_port cfg"
    "ttype cfg = Dynamic \<Longrightarrow> local_port m = local_port cfg"
    "ttype cfg \<noteq> Dynamic \<Longrightarrow> forwards m = forwards cfg"
    "ttype cfg \<noteq> Dynamic \<Longrightarrow> forwards cfg = [] \<Longrightarrow> legacy_forward m = legacy_forward cfg"
    by simp_all
qed

lemma default_name_cong:
  assumes "ttype a = ttype b" "ssh_host a = ssh_host b"
    and "ttype b = Dynamic \<Longrightarrow> local_port a = local_port b"
    and "ttype b \<noteq> Dynamic \<Longrightarrow> forwards a = forwards b"
    and "ttype b \<noteq> Dynamic \<Longrightarrow> forwards b = [] \<Longrightarrow> legacy_forward a = legacy_forward b"
  shows "default_name a = default_name b"
proof (cases "ttype b")
  case Dynamic
  with assms show ?thesis by (simp add: default_name_def)
next
  case Local
  with assms have f: "forwards a = forwards b" by simp
  show ?thesis
  proof (cases "forwards b = []")
    case True
    with assms Local have "legacy_forward a = legacy_forward b" by simp
    then have "local_port a = local_port b" by (simp add: legacy_forward_def)
    with assms Local f True show ?thesis by (simp add: default_name_def)
  next
    case False
    with assms Local f show ?thesis by (simp add: default_name_def)
  qed
next
  case Remote
  with assms have f: "forwards a = forwards b" by simp
  show ?thesis
  proof (cases "forwards b = []")
    case True
    with assms Remote have "legacy_forward a = legacy_forward b" by simp
    then have "remote_port a = remote_port b" by (simp add: legacy_forward_def)
    with assms Remote f True show ?thesis by (simp add: default_name_def)
  next
    case False
    with assms Remote f show ?thesis by (simp add: default_name_def)
  qed
qed

lemma default_name_name: "default_name (c\<lparr>name := n\<rparr>) = default_name c"
  by (simp add: default_name_def split: tunnel_type.splits)

lemma parse_name:
  assumes "parse_ssh_command command = Inr cfg" shows "name cfg = default_name cfg"
proof -
  from parse_InrD [OF assms] obtain c where "cfg = c\<lparr>name := default_name c\<rparr>" by blast
  then show ?thesis by (simp add: default_name_name)
qed

text \<open>
  C2, as the code has it. For every configuration that the parser returns and whose
  exported remote hosts hold no \<open>@\<close>, parsing the exported text succeeds with the same
  type, user, host, port and name; for a dynamic configuration with the same listen
  port, and otherwise with the same stored forwards and the same forwards read.
\<close>

theorem round_trip:
  assumes p: "parse_ssh_command command = Inr cfg"
    and h: "list_all (\<lambda>h. CHR ''@'' \<notin> set h) (exported_hosts cfg)"
  shows "\<exists>cfg'. parse_ssh_command (export_to_command cfg) = Inr cfg' \<and>
           ttype cfg' = ttype cfg \<and> ssh_user cfg' = ssh_user cfg \<and> ssh_host cfg' = ssh_host cfg \<and>
           ssh_port cfg' = ssh_port cfg \<and> name cfg' = name cfg \<and>
           (if ttype cfg = Dynamic then local_port cfg' = local_port cfg
            else read_forwards cfg' = read_forwards cfg \<and> forwards cfg' = forwards cfg)"
proof -
  from p have wf: "well_formed cfg" by (rule parse_well_formed)
  let ?m = "matched (local_matches (export_to_command cfg)) (remote_matches (export_to_command cfg))
               (dynamic_match (export_to_command cfg)) (port_match (export_to_command cfg))"
  let ?c = "?m\<lparr>ssh_user := ssh_user cfg, ssh_host := ssh_host cfg\<rparr>"
  let ?cfg' = "?c\<lparr>name := default_name ?c\<rparr>"
  note me = matched_export [OF wf]
  have 1: "parse_ssh_command (export_to_command cfg) = Inr ?cfg'"
    using parse_export [OF wf h] by (simp add: Let_def)
  have ty: "ttype ?cfg' = ttype cfg" and po: "ssh_port ?cfg' = ssh_port cfg"
    and us: "ssh_user ?cfg' = ssh_user cfg" and ho: "ssh_host ?cfg' = ssh_host cfg"
    by (simp_all add: me)
  have lp: "ttype cfg = Dynamic \<Longrightarrow> local_port ?c = local_port cfg"
    and fw: "ttype cfg \<noteq> Dynamic \<Longrightarrow> forwards ?c = forwards cfg"
    and lg: "ttype cfg \<noteq> Dynamic \<Longrightarrow> forwards cfg = [] \<Longrightarrow> legacy_forward ?c = legacy_forward cfg"
    using me(3,4,5) by (simp_all add: legacy_forward_def)
  have "default_name ?c = default_name cfg"
    by (rule default_name_cong) (simp_all add: me(1) lp fw lg)
  then have na: "name ?cfg' = name cfg" by (simp add: parse_name [OF p])
  have rest: "if ttype cfg = Dynamic then local_port ?cfg' = local_port cfg
            else read_forwards ?cfg' = read_forwards cfg \<and> forwards ?cfg' = forwards cfg"
  proof (cases "ttype cfg = Dynamic")
    case True
    with lp show ?thesis by simp
  next
    case False
    from fw [OF False] have f: "forwards ?cfg' = forwards cfg" by simp
    have "read_forwards ?cfg' = read_forwards cfg"
    proof (cases "forwards cfg = []")
      case True
      from lg [OF False True] have "legacy_forward ?cfg' = legacy_forward cfg"
        by (simp add: legacy_forward_def)
      with f True show ?thesis by (simp add: read_forwards_def)
    next
      case F: False
      with f show ?thesis by (simp add: read_forwards_def)
    qed
    with f False show ?thesis by simp
  qed
  from 1 ty po us ho na rest show ?thesis by blast
qed

theorem round_trip_witness:
  "parse_ssh_command ''ssh -L 27017:mongo-0:27017 -L 27018:mongo-1:27017 -p 4022 bob@db.internal''
     = Inr two_forwards \<and>
   list_all (\<lambda>h. CHR ''@'' \<notin> set h) (exported_hosts two_forwards) \<and>
   (\<exists>cfg'. parse_ssh_command (export_to_command two_forwards) = Inr cfg' \<and>
       ttype cfg' = Local \<and> ssh_user cfg' = ''bob'' \<and> ssh_host cfg' = ''db.internal'' \<and>
       ssh_port cfg' = ''4022'' \<and> forwards cfg' = forwards two_forwards)"
proof -
  have p: "parse_ssh_command ''ssh -L 27017:mongo-0:27017 -L 27018:mongo-1:27017 -p 4022 bob@db.internal''
     = Inr two_forwards" by code_simp
  have h: "list_all (\<lambda>h. CHR ''@'' \<notin> set h) (exported_hosts two_forwards)" by code_simp
  from round_trip [OF p h] obtain cfg' where
    "parse_ssh_command (export_to_command two_forwards) = Inr cfg'"
    "ttype cfg' = ttype two_forwards" "ssh_user cfg' = ssh_user two_forwards"
    "ssh_host cfg' = ssh_host two_forwards" "ssh_port cfg' = ssh_port two_forwards"
    "forwards cfg' = forwards two_forwards"
    by (auto simp: two_forwards_def)
  then have "\<exists>cfg'. parse_ssh_command (export_to_command two_forwards) = Inr cfg' \<and>
       ttype cfg' = Local \<and> ssh_user cfg' = ''bob'' \<and> ssh_host cfg' = ''db.internal'' \<and>
       ssh_port cfg' = ''4022'' \<and> forwards cfg' = forwards two_forwards"
    by (auto simp: two_forwards_def)
  with p h show ?thesis by blast
qed

text \<open>
  C2 as stated fails: the export puts \<open>user@host\<close> last, and the parser takes the
  first token with an \<open>@\<close>, here the forward with the remote host \<open>x@y\<close>.
\<close>

theorem round_trip_counterexample:
  "parse_ssh_command ''ssh a@b -L 80:x@y:90'' = Inr at_in_host \<and>
   export_to_command at_in_host = ''ssh -N -L 80:x@y:90 a@b'' \<and>
   parse_ssh_command (export_to_command at_in_host) =
     Inr \<lparr>ttype = Local, ssh_port = ''22'', local_port = ''80'', remote_host = ''x@y'',
          remote_port = ''90'', ssh_user = ''80:x'', ssh_host = ''y:90'', name = ''y:90_L80'',
          forwards = []\<rparr>"
  by code_simp

end
